theory Spec2Isabelle
  imports Main
begin

section \<open>Data model\<close>

text \<open>
  An argument of a fact is either a parameter symbol (a Python string such as \<open>?x\<close>)
  or an instance of the class \<open>Object\<close>; \<open>isinstance(b, Object)\<close> is the
  discriminator \<open>is_Object\<close>. Objects are compared by identity, modelled by a name.
\<close>

datatype arg = is_Param: Param string | is_Object: Object string

text \<open>
  \<open>Head\<close> is the named tuple \<open>(function, args)\<close> read by \<open>add_atom\<close>
  (\<open>head.function\<close>, \<open>head.args\<close>).
\<close>

datatype head = Head (function_name: string) (args: "arg list")

text \<open>
  Modelled from the spec: the fact tuples of a stream's domain and their accessors
  \<open>get_prefix\<close>, \<open>get_args\<close> (pddlstream.language.constants) and
  \<open>head_from_fact\<close> (pddlstream.language.conversion) are not among the sources. A
  fact is a predicate followed by its ordered arguments, each a parameter symbol or a
  literal Object constant; \<open>get_prefix\<close> reads the predicate, \<open>get_args\<close> the
  arguments, and \<open>head_from_fact\<close> builds the head with the same two components.
\<close>

datatype fact = Fact (get_prefix: string) (get_args: "arg list")

definition head_from_fact :: "fact \<Rightarrow> head" where
  "head_from_fact f = Head (get_prefix f) (get_args f)"

text \<open>
  Modelled from the spec: the evaluation handed to \<open>add_atom\<close> and the test
  \<open>is_atom\<close> (pddlstream.language.conversion) are not among the sources. The code
  reads only \<open>atom.head\<close>; the spec accepts only well-formed ground facts and rejects
  an input that is not fully ground, so \<open>is_atom\<close> holds when every argument of the
  head is an Object.
\<close>

datatype atom = Atom (head: head)

definition is_atom :: "atom \<Rightarrow> bool" where
  "is_atom a = list_all is_Object (args (head a))"

text \<open>
  A stream declaration: the engine reads \<open>stream.inputs\<close> (parameter symbols) and
  \<open>stream.domain\<close> (facts). A stream object is identified with its declaration.
\<close>

record stream =
  name :: string
  inputs :: "string list"
  domain :: "fact list"

text \<open>
  Modelled from the spec: \<open>stream.get_instance\<close> is not among the sources. A stream
  instance is the pair of the stream and the ordered tuple of input objects, and equal
  arguments give the same instance.
\<close>

type_synonym stream_instance = "stream \<times> arg list"

definition get_instance :: "stream \<Rightarrow> arg list \<Rightarrow> stream_instance" where
  "get_instance s input_objects = (s, input_objects)"

datatype error = AssertionError | KeyError

text \<open>
  Modelled from the spec: \<open>safe_zip\<close> (pddlstream.utils) is not among the sources.
  The unification contract takes two equal-length sequences; \<open>safe_zip\<close> asserts the
  equal length and then pairs the elements positionally.
\<close>

definition safe_zip :: "'a list \<Rightarrow> 'b list \<Rightarrow> error + ('a \<times> 'b) list" where
  "safe_zip xs ys = (if length xs = length ys then Inr (zip xs ys) else Inl AssertionError)"

text \<open>
  The state of an \<open>Instantiator\<close>. \<open>atoms_from_domain\<close> is a
  \<open>defaultdict(list)\<close>: a key never written reads as the empty list, so it is a
  total function into lists. \<open>stream_queue\<close> is the deque, appended on the right.
\<close>

record instantiator =
  streams :: "stream list"
  stream_instances :: "stream_instance set"
  stream_queue :: "stream_instance list"
  atoms :: "head set"
  atoms_from_domain :: "nat \<times> nat \<Rightarrow> head list"

section \<open>Unification\<close>

text \<open>
  The inner loop of \<open>get_mapping\<close> over the zipped arguments of one pair of atoms:
  \<open>mapping.get(arg1, arg2) == arg2\<close> stores the binding, anything else returns
  \<open>None\<close> from the whole function.
\<close>

fun bind_args :: "(arg \<rightharpoonup> arg) \<Rightarrow> (arg \<times> arg) list \<Rightarrow> (arg \<rightharpoonup> arg) option" where
  "bind_args mapping [] = Some mapping"
| "bind_args mapping ((arg1, arg2) # rest) =
     (if (case mapping arg1 of None \<Rightarrow> arg2 | Some v \<Rightarrow> v) = arg2
      then bind_args (mapping(arg1 \<mapsto> arg2)) rest
      else None)"

text \<open>
  The outer loop over the zipped atoms: the assertion on the prefixes, the
  \<open>safe_zip\<close> of the arguments, then the inner loop.
\<close>

fun bind_atoms :: "(arg \<rightharpoonup> arg) \<Rightarrow> (head \<times> head) list \<Rightarrow> error + (arg \<rightharpoonup> arg) option" where
  "bind_atoms mapping [] = Inr (Some mapping)"
| "bind_atoms mapping ((a1, a2) # rest) =
     (if function_name a1 \<noteq> function_name a2 then Inl AssertionError
      else case safe_zip (args a1) (args a2) of
        Inl e \<Rightarrow> Inl e
      | Inr pairs \<Rightarrow>
          (case bind_args mapping pairs of
             None \<Rightarrow> Inr None
           | Some mapping' \<Rightarrow> bind_atoms mapping' rest))"

definition get_mapping :: "head list \<Rightarrow> head list \<Rightarrow> error + (arg \<rightharpoonup> arg) option" where
  "get_mapping atoms1 atoms2 =
     (case safe_zip atoms1 atoms2 of
        Inl e \<Rightarrow> Inl e
      | Inr pairs \<Rightarrow> bind_atoms Map.empty pairs)"

section \<open>The instantiator\<close>

definition add_instance :: "instantiator \<Rightarrow> stream \<Rightarrow> arg list \<Rightarrow> instantiator \<times> bool" where
  "add_instance self s input_objects =
     (let stream_instance = get_instance s input_objects in
      if stream_instance \<in> stream_instances self then (self, False)
      else (self\<lparr>stream_instances := insert stream_instance (stream_instances self),
                 stream_queue := stream_queue self @ [stream_instance]\<rparr>, True))"

text \<open>
  \<open>tuple(mapping[p] for p in stream.inputs)\<close>: a parameter that the mapping does not
  bind raises \<open>KeyError\<close>.
\<close>

fun lookup_inputs :: "(arg \<rightharpoonup> arg) \<Rightarrow> string list \<Rightarrow> error + arg list" where
  "lookup_inputs mapping [] = Inr []"
| "lookup_inputs mapping (p # ps) =
     (case mapping (Param p) of
        None \<Rightarrow> Inl KeyError
      | Some v \<Rightarrow>
          (case lookup_inputs mapping ps of
             Inl e \<Rightarrow> Inl e
           | Inr vs \<Rightarrow> Inr (v # vs)))"

text \<open>
  The loop of \<open>_add_combinations\<close> over the tuples of \<open>product(*values)\<close>, which
  \<open>product_lists\<close> enumerates in the same order (the first list varies slowest). An
  exception leaves the state as it was mutated so far.
\<close>

fun add_combos :: "instantiator \<Rightarrow> stream \<Rightarrow> head list \<Rightarrow> head list list \<Rightarrow> instantiator \<times> (error + unit)" where
  "add_combos self s heads [] = (self, Inr ())"
| "add_combos self s heads (combo # rest) =
     (case get_mapping heads combo of
        Inl e \<Rightarrow> (self, Inl e)
      | Inr None \<Rightarrow> add_combos self s heads rest
      | Inr (Some mapping) \<Rightarrow>
          (case lookup_inputs mapping (inputs s) of
             Inl e \<Rightarrow> (self, Inl e)
           | Inr input_objects \<Rightarrow>
               add_combos (fst (add_instance self s input_objects)) s heads rest))"

definition add_combinations :: "instantiator \<Rightarrow> stream \<Rightarrow> head list list \<Rightarrow> instantiator \<times> (error + unit)" where
  "add_combinations self s vals =
     add_combos self s (map head_from_fact (domain s)) (product_lists vals)"

text \<open>
  The body of the inner loop of \<open>add_atom\<close> for stream \<open>i\<close> and domain slot
  \<open>j\<close>: the two \<open>continue\<close> tests, the append to the index and the call of
  \<open>_add_combinations\<close>. \<open>safe_zip\<close> is evaluated before \<open>any\<close> iterates.
\<close>

definition add_atom_slot :: "instantiator \<Rightarrow> head \<Rightarrow> nat \<Rightarrow> stream \<Rightarrow> nat \<Rightarrow> fact \<Rightarrow> instantiator \<times> (error + unit)" where
  "add_atom_slot self h i s j domain_fact =
     (if function_name h \<noteq> get_prefix domain_fact then (self, Inr ())
      else case safe_zip (args h) (get_args domain_fact) of
        Inl e \<Rightarrow> (self, Inl e)
      | Inr pairs \<Rightarrow>
          if list_ex (\<lambda>(a, b). is_Object b \<and> a \<noteq> b) pairs then (self, Inr ())
          else
            let self1 = self\<lparr>atoms_from_domain :=
                          (atoms_from_domain self)((i, j) := atoms_from_domain self (i, j) @ [h])\<rparr>;
                vals = map (\<lambda>k. if j \<noteq> k then atoms_from_domain self1 (i, k) else [h])
                         [0..<length (domain s)]
            in add_combinations self1 s vals)"

fun add_atom_slots :: "instantiator \<Rightarrow> head \<Rightarrow> nat \<Rightarrow> stream \<Rightarrow> nat \<Rightarrow> fact list \<Rightarrow> instantiator \<times> (error + unit)" where
  "add_atom_slots self h i s j [] = (self, Inr ())"
| "add_atom_slots self h i s j (domain_fact # rest) =
     (case add_atom_slot self h i s j domain_fact of
        (self', Inl e) \<Rightarrow> (self', Inl e)
      | (self', Inr _) \<Rightarrow> add_atom_slots self' h i s (Suc j) rest)"

fun add_atom_streams :: "instantiator \<Rightarrow> head \<Rightarrow> nat \<Rightarrow> stream list \<Rightarrow> instantiator \<times> (error + unit)" where
  "add_atom_streams self h i [] = (self, Inr ())"
| "add_atom_streams self h i (s # rest) =
     (case add_atom_slots self h i s 0 (domain s) of
        (self', Inl e) \<Rightarrow> (self', Inl e)
      | (self', Inr _) \<Rightarrow> add_atom_streams self' h (Suc i) rest)"

definition add_atom :: "instantiator \<Rightarrow> atom \<Rightarrow> instantiator \<times> (error + bool)" where
  "add_atom self a =
     (if \<not> is_atom a then (self, Inr False)
      else
        let h = head a in
        if h \<in> atoms self then (self, Inr False)
        else
          case add_atom_streams (self\<lparr>atoms := insert h (atoms self)\<rparr>) h 0 (streams self) of
            (self', Inl e) \<Rightarrow> (self', Inl e)
          | (self', Inr _) \<Rightarrow> (self', Inr True))"

text \<open>
  The constructor: the empty state, the loop that instantiates every stream without
  inputs, and the loop that submits the initial evaluations. \<open>add_atoms\<close> is that
  last loop; it is also a consumer's sequence of \<open>add_atom\<close> calls.
\<close>

definition empty_instantiator :: "stream list \<Rightarrow> instantiator" where
  "empty_instantiator strs =
     \<lparr>streams = strs, stream_instances = {}, stream_queue = [], atoms = {},
      atoms_from_domain = (\<lambda>_. [])\<rparr>"

fun add_zero_input :: "instantiator \<Rightarrow> stream list \<Rightarrow> instantiator" where
  "add_zero_input self [] = self"
| "add_zero_input self (s # rest) =
     add_zero_input (if inputs s = [] then fst (add_instance self s []) else self) rest"

fun add_atoms :: "instantiator \<Rightarrow> atom list \<Rightarrow> instantiator \<times> (error + unit)" where
  "add_atoms self [] = (self, Inr ())"
| "add_atoms self (a # rest) =
     (case add_atom self a of
        (self', Inl e) \<Rightarrow> (self', Inl e)
      | (self', Inr _) \<Rightarrow> add_atoms self' rest)"

definition Instantiator :: "atom list \<Rightarrow> stream list \<Rightarrow> error + instantiator" where
  "Instantiator evaluations strs =
     (case add_atoms (add_zero_input (empty_instantiator strs) strs) evaluations of
        (self, Inl e) \<Rightarrow> Inl e
      | (self, Inr _) \<Rightarrow> Inr self)"

section \<open>Auxiliary notions for the statements\<close>

text \<open>
  The positional pairs (domain-side argument, candidate argument) that
  \<open>get_mapping\<close> visits, in order.
\<close>

definition arg_pairs :: "head list \<Rightarrow> head list \<Rightarrow> (arg \<times> arg) list" where
  "arg_pairs atoms1 atoms2 =
     concat (map (\<lambda>(a1, a2). zip (args a1) (args a2)) (zip atoms1 atoms2))"

text \<open>
  The contract of \<open>get_mapping\<close>: two sequences of equal length whose atoms have,
  position by position, the same predicate (name and number of arguments).
\<close>

definition matched :: "head list \<Rightarrow> head list \<Rightarrow> bool" where
  "matched atoms1 atoms2 =
     list_all2 (\<lambda>a1 a2. function_name a1 = function_name a2 \<and> length (args a1) = length (args a2))
       atoms1 atoms2"

definition agrees :: "(arg \<rightharpoonup> arg) \<Rightarrow> (arg \<times> arg) list \<Rightarrow> bool" where
  "agrees m ps = (\<forall>k v. (k, v) \<in> set ps \<longrightarrow> m k = None \<or> m k = Some v)"

text \<open>
  Two argument positions hold the same domain-side argument while the candidate's
  arguments at these positions differ.
\<close>

definition binding_conflict :: "head list \<Rightarrow> head list \<Rightarrow> bool" where
  "binding_conflict atoms1 atoms2 =
     (\<exists>i p j q. i < length atoms1 \<and> p < length (args (atoms1 ! i)) \<and>
                j < length atoms1 \<and> q < length (args (atoms1 ! j)) \<and>
                args (atoms1 ! i) ! p = args (atoms1 ! j) ! q \<and>
                args (atoms2 ! i) ! p \<noteq> args (atoms2 ! j) ! q)"

text \<open>
  A head is compatible with a domain slot when the filter of \<open>add_atom\<close> lets it
  through without an exception: same predicate, same number of arguments, and no
  literal constant of the domain fact differs from the head's argument there.
\<close>

definition slot_compatible :: "head \<Rightarrow> fact \<Rightarrow> bool" where
  "slot_compatible h df \<longleftrightarrow>
     function_name h = get_prefix df \<and> length (args h) = length (get_args df) \<and>
     \<not> list_ex (\<lambda>(a, b). is_Object b \<and> a \<noteq> b) (zip (args h) (get_args df))"

text \<open>
  What one iteration of the loop of \<open>_add_combinations\<close> computes for a tuple of
  heads: an exception, no instance (unification failed), or the instance requested.
\<close>

definition combo_instance :: "stream \<Rightarrow> head list \<Rightarrow> error + stream_instance option" where
  "combo_instance s combo =
     (case get_mapping (map head_from_fact (domain s)) combo of
        Inl e \<Rightarrow> Inl e
      | Inr None \<Rightarrow> Inr None
      | Inr (Some mapping) \<Rightarrow>
          (case lookup_inputs mapping (inputs s) of
             Inl e \<Rightarrow> Inl e
           | Inr input_objects \<Rightarrow> Inr (Some (get_instance s input_objects))))"

text \<open>
  The second state extends the first: the queue grew at its end by instances that were
  not in the instance set, each once, and the instance set grew by the same instances.
\<close>

definition queue_ext :: "instantiator \<Rightarrow> instantiator \<Rightarrow> bool" where
  "queue_ext self self' \<longleftrightarrow>
     (\<exists>rest. stream_queue self' = stream_queue self @ rest \<and> distinct rest \<and>
             set rest \<inter> stream_instances self = {} \<and>
             stream_instances self' = stream_instances self \<union> set rest)"

text \<open>
  The lists \<open>values\<close> that \<open>add_atom\<close> hands to \<open>_add_combinations\<close> for slot
  \<open>j\<close> of stream \<open>i\<close>, read from an index.
\<close>

definition slot_vals :: "(nat \<times> nat \<Rightarrow> head list) \<Rightarrow> head \<Rightarrow> nat \<Rightarrow> nat \<Rightarrow> nat \<Rightarrow> head list list" where
  "slot_vals idx h i j K = map (\<lambda>k. if j \<noteq> k then idx (i, k) else [h]) [0..<K]"

definition new_instances :: "(nat \<times> nat \<Rightarrow> head list) \<Rightarrow> head \<Rightarrow> nat \<Rightarrow> stream \<Rightarrow> nat \<Rightarrow> stream_instance set" where
  "new_instances idx h i s j =
     {inst. \<exists>c \<in> set (product_lists (slot_vals idx h i j (length (domain s)))).
              combo_instance s c = Inr (Some inst)}"

definition vals_checked :: "(nat \<times> nat \<Rightarrow> head list) \<Rightarrow> head \<Rightarrow> nat \<Rightarrow> stream \<Rightarrow> nat \<Rightarrow> bool" where
  "vals_checked idx h i s j \<longleftrightarrow>
     (\<forall>c \<in> set (product_lists (slot_vals idx h i j (length (domain s)))).
        \<exists>x. combo_instance s c = Inr x)"

text \<open>
  The tuples of known heads that fit the domain of a stream slot by slot, the
  instances they give, and the instances of the streams without inputs.
\<close>

definition slot_combos :: "head set \<Rightarrow> stream \<Rightarrow> head list set" where
  "slot_combos H s = {c. list_all2 (\<lambda>h df. h \<in> H \<and> slot_compatible h df) c (domain s)}"

definition derived :: "head set \<Rightarrow> stream \<Rightarrow> stream_instance set" where
  "derived H s = {inst. \<exists>c \<in> slot_combos H s. combo_instance s c = Inr (Some inst)}"

definition zero_instances :: "stream list \<Rightarrow> stream_instance set" where
  "zero_instances S = {get_instance s [] | s. s \<in> set S \<and> inputs s = []}"

definition all_instances :: "stream list \<Rightarrow> head set \<Rightarrow> stream_instance set" where
  "all_instances S H = zero_instances S \<union> (\<Union>s \<in> set S. derived H s)"

text \<open>Invariants of the state that every call keeps, also when it raises.\<close>

definition index_sound :: "instantiator \<Rightarrow> bool" where
  "index_sound self \<longleftrightarrow>
     (\<forall>i j h. h \<in> set (atoms_from_domain self (i, j)) \<longrightarrow>
        i < length (streams self) \<and> j < length (domain (streams self ! i)) \<and>
        h \<in> atoms self \<and> slot_compatible h (domain (streams self ! i) ! j))"

definition queue_ok :: "instantiator \<Rightarrow> bool" where
  "queue_ok self \<longleftrightarrow>
     distinct (stream_queue self) \<and> set (stream_queue self) = stream_instances self"

definition instances_sound :: "instantiator \<Rightarrow> bool" where
  "instances_sound self \<longleftrightarrow>
     stream_instances self \<subseteq> all_instances (streams self) (atoms self)"

definition zero_present :: "instantiator \<Rightarrow> bool" where
  "zero_present self \<longleftrightarrow> zero_instances (streams self) \<subseteq> stream_instances self"

definition engine_inv :: "instantiator \<Rightarrow> bool" where
  "engine_inv self \<longleftrightarrow>
     index_sound self \<and> queue_ok self \<and> instances_sound self \<and> zero_present self"

text \<open>
  No domain fact of the streams has the predicate of the head with another number of
  arguments: the head passes every \<open>safe_zip\<close> of \<open>add_atom\<close>.
\<close>

definition arity_ok :: "stream list \<Rightarrow> head \<Rightarrow> bool" where
  "arity_ok S h \<longleftrightarrow>
     (\<forall>s \<in> set S. \<forall>df \<in> set (domain s).
        function_name h = get_prefix df \<longrightarrow> length (args h) = length (get_args df))"

text \<open>
  Invariants that hold between calls as long as no call has raised. The tuples over the
  current index lists of stream \<open>i\<close> are the tuples \<open>_add_combinations\<close> has been
  run on; a stream with an empty domain has no slot and is never run.
\<close>

definition idx_combos :: "instantiator \<Rightarrow> nat \<Rightarrow> head list set" where
  "idx_combos self i =
     set (product_lists (map (\<lambda>k. atoms_from_domain self (i, k))
                            [0..<length (domain (streams self ! i))]))"

definition idx_instances :: "instantiator \<Rightarrow> stream_instance set" where
  "idx_instances self =
     {inst. \<exists>i < length (streams self). domain (streams self ! i) \<noteq> [] \<and>
        (\<exists>c \<in> idx_combos self i. combo_instance (streams self ! i) c = Inr (Some inst))}"

definition instances_exact :: "instantiator \<Rightarrow> bool" where
  "instances_exact self \<longleftrightarrow>
     stream_instances self = zero_instances (streams self) \<union> idx_instances self"

definition combos_checked :: "instantiator \<Rightarrow> bool" where
  "combos_checked self \<longleftrightarrow>
     (\<forall>i < length (streams self). domain (streams self ! i) \<noteq> [] \<longrightarrow>
        (\<forall>c \<in> idx_combos self i. \<exists>x. combo_instance (streams self ! i) c = Inr x))"

definition index_complete :: "instantiator \<Rightarrow> bool" where
  "index_complete self \<longleftrightarrow>
     (\<forall>i j h. i < length (streams self) \<and> j < length (domain (streams self ! i)) \<and>
        h \<in> atoms self \<and> slot_compatible h (domain (streams self ! i) ! j)
        \<longrightarrow> h \<in> set (atoms_from_domain self (i, j)))"

definition exact_inv :: "instantiator \<Rightarrow> bool" where
  "exact_inv self \<longleftrightarrow>
     engine_inv self \<and> index_complete self \<and> instances_exact self \<and> combos_checked self \<and>
     (\<forall>h \<in> atoms self. arity_ok (streams self) h)"

text \<open>
  A set of heads that no submission order makes \<open>add_atom\<close> raise on: every head
  passes the length assertions, and every tuple of slot-compatible heads of a stream
  with a domain unifies or fails without an exception and binds every input.
\<close>

definition no_errors :: "stream list \<Rightarrow> head set \<Rightarrow> bool" where
  "no_errors S H \<longleftrightarrow>
     (\<forall>h \<in> H. arity_ok S h) \<and>
     (\<forall>s \<in> set S. domain s \<noteq> [] \<longrightarrow>
        (\<forall>c \<in> slot_combos H s. \<exists>x. combo_instance s c = Inr x))"

definition heads_of :: "atom list \<Rightarrow> head set" where
  "heads_of xs = {head a | a. a \<in> set xs \<and> is_atom a}"

text \<open>
  A consumer that calls \<open>add_atom\<close> on each atom in turn and goes on after a call
  that raised (it catches the exception); the state is the one the calls left.
\<close>

fun add_atoms_catching :: "instantiator \<Rightarrow> atom list \<Rightarrow> instantiator" where
  "add_atoms_catching self [] = self"
| "add_atoms_catching self (a # rest) = add_atoms_catching (fst (add_atom self a)) rest"

section \<open>Properties of unification\<close>

lemma agrees_upd:
  assumes "m k = None \<or> m k = Some v"
  shows "agrees (m(k \<mapsto> v)) ps \<longleftrightarrow> agrees m ps \<and> (\<forall>v'. (k, v') \<in> set ps \<longrightarrow> v' = v)"
proof
  assume l: "agrees (m(k \<mapsto> v)) ps"
  have "m k' = None \<or> m k' = Some v'" if "(k', v') \<in> set ps" for k' v'
    using l that assms unfolding agrees_def by (cases "k' = k") force+
  moreover have "v' = v" if "(k, v') \<in> set ps" for v'
    using l that unfolding agrees_def by force
  ultimately show "agrees m ps \<and> (\<forall>v'. (k, v') \<in> set ps \<longrightarrow> v' = v)"
    unfolding agrees_def by blast
next
  assume r: "agrees m ps \<and> (\<forall>v'. (k, v') \<in> set ps \<longrightarrow> v' = v)"
  show "agrees (m(k \<mapsto> v)) ps"
    unfolding agrees_def
  proof (intro allI impI)
    fix k' v' assume "(k', v') \<in> set ps"
    with r show "(m(k \<mapsto> v)) k' = None \<or> (m(k \<mapsto> v)) k' = Some v'"
      unfolding agrees_def by (cases "k' = k") auto
  qed
qed

lemma single_valued_Cons:
  "single_valued (set ((k, v) # ps)) \<longleftrightarrow>
     single_valued (set ps) \<and> (\<forall>v'. (k, v') \<in> set ps \<longrightarrow> v' = v)"
  unfolding single_valued_def by (simp; blast)

lemma map_add_upd_front:
  assumes "\<forall>v'. (k, v') \<in> set ps \<longrightarrow> v' = v"
  shows "(m(k \<mapsto> v)) ++ map_of ps = m ++ map_of ((k, v) # ps)"
proof (rule ext)
  fix x
  show "((m(k \<mapsto> v)) ++ map_of ps) x = (m ++ map_of ((k, v) # ps)) x"
  proof (cases "map_of ps x")
    case None
    then show ?thesis by (simp add: map_add_def)
  next
    case (Some w)
    then have "(x, w) \<in> set ps" by (rule map_of_SomeD)
    with assms Some show ?thesis by (auto simp: map_add_def)
  qed
qed

lemma agrees_Cons:
  "agrees m ((k, v) # ps) \<longleftrightarrow> (m k = None \<or> m k = Some v) \<and> agrees m ps"
  unfolding agrees_def by auto

lemma bind_args_Some_iff:
  "bind_args m ps = Some m' \<longleftrightarrow> agrees m ps \<and> single_valued (set ps) \<and> m' = m ++ map_of ps"
proof (induction ps arbitrary: m)
  case Nil
  then show ?case by (auto simp: agrees_def)
next
  case (Cons kv ps)
  obtain k v where kv: "kv = (k, v)" by (cases kv)
  show ?case
  proof (cases "m k = None \<or> m k = Some v")
    case False
    then have "bind_args m (kv # ps) = None" by (auto simp: kv)
    with False show ?thesis by (simp add: kv agrees_Cons)
  next
    case True
    let ?u = "\<forall>v'. (k, v') \<in> set ps \<longrightarrow> v' = v"
    from True have "bind_args m (kv # ps) = bind_args (m(k \<mapsto> v)) ps"
      by (auto simp: kv)
    then have "bind_args m (kv # ps) = Some m' \<longleftrightarrow>
        agrees (m(k \<mapsto> v)) ps \<and> single_valued (set ps) \<and> m' = (m(k \<mapsto> v)) ++ map_of ps"
      by (simp only: Cons.IH)
    also have "\<dots> \<longleftrightarrow> agrees m ps \<and> ?u \<and> single_valued (set ps) \<and> m' = (m(k \<mapsto> v)) ++ map_of ps"
      using agrees_upd[of m k v ps] True by blast
    also have "\<dots> \<longleftrightarrow> agrees m ps \<and> ?u \<and> single_valued (set ps) \<and> m' = m ++ map_of ((k, v) # ps)"
      using map_add_upd_front[of k ps v m] by metis
    also have "\<dots> \<longleftrightarrow> agrees m (kv # ps) \<and> single_valued (set (kv # ps)) \<and> m' = m ++ map_of (kv # ps)"
      unfolding kv single_valued_Cons agrees_Cons using True by blast
    finally show ?thesis .
  qed
qed

lemma bind_args_append:
  "bind_args m (ps @ qs) = (case bind_args m ps of None \<Rightarrow> None | Some m' \<Rightarrow> bind_args m' qs)"
  by (induction ps arbitrary: m) auto

lemma bind_atoms_flat:
  "\<forall>(a1, a2) \<in> set aps. function_name a1 = function_name a2 \<and> length (args a1) = length (args a2) \<Longrightarrow>
   bind_atoms m aps = Inr (bind_args m (concat (map (\<lambda>(a1, a2). zip (args a1) (args a2)) aps)))"
proof (induction aps arbitrary: m)
  case Nil
  then show ?case by simp
next
  case (Cons ap aps)
  then show ?case
    by (cases ap) (auto simp: safe_zip_def bind_args_append split: option.splits)
qed

lemma matched_length: "matched atoms1 atoms2 \<Longrightarrow> length atoms1 = length atoms2"
  by (auto simp: matched_def dest: list_all2_lengthD)

lemma get_mapping_flat:
  assumes "matched atoms1 atoms2"
  shows "get_mapping atoms1 atoms2 = Inr (bind_args Map.empty (arg_pairs atoms1 atoms2))"
proof -
  from assms have "\<forall>(a1, a2) \<in> set (zip atoms1 atoms2).
      function_name a1 = function_name a2 \<and> length (args a1) = length (args a2)"
    by (auto simp: matched_def list_all2_iff)
  then show ?thesis
    by (simp add: get_mapping_def safe_zip_def matched_length[OF assms] bind_atoms_flat arg_pairs_def)
qed

lemma bind_args_empty:
  "bind_args Map.empty ps = (if single_valued (set ps) then Some (map_of ps) else None)"
proof -
  have "agrees Map.empty ps" by (simp add: agrees_def)
  then show ?thesis
    using bind_args_Some_iff[of Map.empty ps] by (cases "bind_args Map.empty ps") auto
qed

lemma get_mapping_char:
  assumes "matched atoms1 atoms2"
  shows "get_mapping atoms1 atoms2 =
     Inr (if single_valued (set (arg_pairs atoms1 atoms2))
          then Some (map_of (arg_pairs atoms1 atoms2)) else None)"
  using get_mapping_flat[OF assms] by (simp add: bind_args_empty)

lemma set_arg_pairs:
  "length atoms1 = length atoms2 \<Longrightarrow> set (arg_pairs atoms1 atoms2) =
     {(args (atoms1 ! i) ! p, args (atoms2 ! i) ! p) | i p.
        i < length atoms1 \<and> p < length (args (atoms1 ! i)) \<and> p < length (args (atoms2 ! i))}"
  unfolding arg_pairs_def
  by (auto simp: set_zip in_set_conv_nth)


lemma matched_arity:
  "matched atoms1 atoms2 \<Longrightarrow> i < length atoms1 \<Longrightarrow>
   length (args (atoms1 ! i)) = length (args (atoms2 ! i))"
  by (auto simp: matched_def list_all2_conv_all_nth)

lemma in_arg_pairs_iff:
  assumes "matched atoms1 atoms2"
  shows "(k, v) \<in> set (arg_pairs atoms1 atoms2) \<longleftrightarrow>
     (\<exists>i p. i < length atoms1 \<and> p < length (args (atoms1 ! i)) \<and>
            k = args (atoms1 ! i) ! p \<and> v = args (atoms2 ! i) ! p)"
proof -
  have len: "length atoms1 = length atoms2" using assms by (rule matched_length)
  show ?thesis
  proof
    assume "(k, v) \<in> set (arg_pairs atoms1 atoms2)"
    then obtain i p where "i < length atoms1" "p < length (args (atoms1 ! i))"
        "k = args (atoms1 ! i) ! p" "v = args (atoms2 ! i) ! p"
      unfolding set_arg_pairs[OF len] by blast
    then show "\<exists>i p. i < length atoms1 \<and> p < length (args (atoms1 ! i)) \<and>
            k = args (atoms1 ! i) ! p \<and> v = args (atoms2 ! i) ! p" by blast
  next
    assume "\<exists>i p. i < length atoms1 \<and> p < length (args (atoms1 ! i)) \<and>
            k = args (atoms1 ! i) ! p \<and> v = args (atoms2 ! i) ! p"
    then obtain i p where ip: "i < length atoms1" "p < length (args (atoms1 ! i))"
        "k = args (atoms1 ! i) ! p" "v = args (atoms2 ! i) ! p" by blast
    from matched_arity[OF assms ip(1)] ip(2) have "p < length (args (atoms2 ! i))" by simp
    with ip show "(k, v) \<in> set (arg_pairs atoms1 atoms2)"
      unfolding set_arg_pairs[OF len] by blast
  qed
qed

lemma single_valued_arg_pairs:
  assumes "matched atoms1 atoms2"
  shows "single_valued (set (arg_pairs atoms1 atoms2)) \<longleftrightarrow> \<not> binding_conflict atoms1 atoms2"
proof
  assume l: "single_valued (set (arg_pairs atoms1 atoms2))"
  show "\<not> binding_conflict atoms1 atoms2"
  proof
    assume "binding_conflict atoms1 atoms2"
    then obtain i p j q where h: "i < length atoms1" "p < length (args (atoms1 ! i))"
      "j < length atoms1" "q < length (args (atoms1 ! j))"
      "args (atoms1 ! i) ! p = args (atoms1 ! j) ! q"
      "args (atoms2 ! i) ! p \<noteq> args (atoms2 ! j) ! q"
      unfolding binding_conflict_def by blast
    have 1: "(args (atoms1 ! i) ! p, args (atoms2 ! i) ! p) \<in> set (arg_pairs atoms1 atoms2)"
      using h(1,2) in_arg_pairs_iff[OF assms] by blast
    have 2: "(args (atoms1 ! i) ! p, args (atoms2 ! j) ! q) \<in> set (arg_pairs atoms1 atoms2)"
      using h(3,4,5) in_arg_pairs_iff[OF assms] by blast
    from l 1 2 have "args (atoms2 ! i) ! p = args (atoms2 ! j) ! q"
      unfolding single_valued_def by blast
    with h(6) show False by simp
  qed
next
  assume r: "\<not> binding_conflict atoms1 atoms2"
  show "single_valued (set (arg_pairs atoms1 atoms2))"
    unfolding single_valued_def
  proof (intro allI impI)
    fix k v w
    assume "(k, v) \<in> set (arg_pairs atoms1 atoms2)" "(k, w) \<in> set (arg_pairs atoms1 atoms2)"
    then obtain i p j q where h:
      "i < length atoms1" "p < length (args (atoms1 ! i))"
      "k = args (atoms1 ! i) ! p" "v = args (atoms2 ! i) ! p"
      "j < length atoms1" "q < length (args (atoms1 ! j))"
      "k = args (atoms1 ! j) ! q" "w = args (atoms2 ! j) ! q"
      unfolding in_arg_pairs_iff[OF assms] by blast
    show "v = w"
    proof (rule ccontr)
      assume "v \<noteq> w"
      with h have "binding_conflict atoms1 atoms2"
        unfolding binding_conflict_def by (intro exI[of _ i] exI[of _ p] exI[of _ j] exI[of _ q]) simp
      with r show False by simp
    qed
  qed
qed

lemma map_of_arg_pairs:
  assumes "matched atoms1 atoms2" "single_valued (set (arg_pairs atoms1 atoms2))"
    "i < length atoms1" "p < length (args (atoms1 ! i))"
  shows "map_of (arg_pairs atoms1 atoms2) (args (atoms1 ! i) ! p) = Some (args (atoms2 ! i) ! p)"
proof -
  have in1: "(args (atoms1 ! i) ! p, args (atoms2 ! i) ! p) \<in> set (arg_pairs atoms1 atoms2)"
    using assms(3,4) in_arg_pairs_iff[OF assms(1)] by blast
  then obtain w where w: "map_of (arg_pairs atoms1 atoms2) (args (atoms1 ! i) ! p) = Some w"
    using weak_map_of_SomeI by fast
  then have "(args (atoms1 ! i) ! p, w) \<in> set (arg_pairs atoms1 atoms2)" by (rule map_of_SomeD)
  with in1 assms(2) have "w = args (atoms2 ! i) ! p" unfolding single_valued_def by blast
  with w show ?thesis by simp
qed

lemma dom_map_of_arg_pairs:
  assumes "matched atoms1 atoms2"
  shows "dom (map_of (arg_pairs atoms1 atoms2)) = (\<Union>a \<in> set atoms1. set (args a))"
proof -
  have "k \<in> fst ` set (arg_pairs atoms1 atoms2) \<longleftrightarrow> k \<in> (\<Union>a \<in> set atoms1. set (args a))" for k
  proof -
    have "k \<in> fst ` set (arg_pairs atoms1 atoms2) \<longleftrightarrow> (\<exists>v. (k, v) \<in> set (arg_pairs atoms1 atoms2))"
      by force
    also have "\<dots> \<longleftrightarrow> (\<exists>i p. i < length atoms1 \<and> p < length (args (atoms1 ! i)) \<and> k = args (atoms1 ! i) ! p)"
      unfolding in_arg_pairs_iff[OF assms] by blast
    also have "\<dots> \<longleftrightarrow> (\<exists>a \<in> set atoms1. k \<in> set (args a))"
      by (metis in_set_conv_nth)
    finally show ?thesis by simp
  qed
  then have "fst ` set (arg_pairs atoms1 atoms2) = (\<Union>a \<in> set atoms1. set (args a))" by blast
  then show ?thesis by (simp add: dom_map_of_conv_image_fst)
qed

lemma add_atom_slot_filtered:
  assumes "p < length (args h)" "p < length (get_args df)"
    and "is_Object (get_args df ! p)" and "args h ! p \<noteq> get_args df ! p"
    and "length (args h) = length (get_args df)"
  shows "add_atom_slot self h i s j df = (self, Inr ())"
proof -
  have "(args h ! p, get_args df ! p) \<in> set (zip (args h) (get_args df))"
    using assms(1,2) by (auto simp: set_zip)
  then have "list_ex (\<lambda>(a, b). is_Object b \<and> a \<noteq> b) (zip (args h) (get_args df))"
    unfolding list_ex_iff using assms(3,4) by blast
  then show ?thesis
    by (simp add: add_atom_slot_def safe_zip_def assms(5))
qed

section \<open>Instances and combinations\<close>

lemma queue_ext_refl: "queue_ext self self"
  unfolding queue_ext_def by (rule exI[of _ "[]"]) simp

lemma queue_ext_trans:
  assumes "queue_ext a b" "queue_ext b c"
  shows "queue_ext a c"
proof -
  from assms(1) obtain r1 where r1: "stream_queue b = stream_queue a @ r1" "distinct r1"
      "set r1 \<inter> stream_instances a = {}" "stream_instances b = stream_instances a \<union> set r1"
    unfolding queue_ext_def by blast
  from assms(2) obtain r2 where r2: "stream_queue c = stream_queue b @ r2" "distinct r2"
      "set r2 \<inter> stream_instances b = {}" "stream_instances c = stream_instances b \<union> set r2"
    unfolding queue_ext_def by blast
  have "stream_queue c = stream_queue a @ (r1 @ r2)" using r1(1) r2(1) by simp
  moreover have "distinct (r1 @ r2)" using r1(2) r2(2) r2(3) r1(4) by auto
  moreover have "set (r1 @ r2) \<inter> stream_instances a = {}" using r1(3) r2(3) r1(4) by auto
  moreover have "stream_instances c = stream_instances a \<union> set (r1 @ r2)" using r1(4) r2(4) by auto
  ultimately show ?thesis unfolding queue_ext_def by blast
qed

lemma add_instance_frame:
  "streams (fst (add_instance self s objs)) = streams self"
  "atoms (fst (add_instance self s objs)) = atoms self"
  "atoms_from_domain (fst (add_instance self s objs)) = atoms_from_domain self"
  by (simp_all add: add_instance_def Let_def)

lemma add_instance_instances:
  "stream_instances (fst (add_instance self s objs)) = insert (get_instance s objs) (stream_instances self)"
  by (auto simp: add_instance_def Let_def)

lemma add_instance_queue_ext: "queue_ext self (fst (add_instance self s objs))"
proof (cases "get_instance s objs \<in> stream_instances self")
  case True
  then show ?thesis by (simp add: add_instance_def queue_ext_refl)
next
  case False
  then show ?thesis
    unfolding queue_ext_def
    by (intro exI[of _ "[get_instance s objs]"]) (simp add: add_instance_def Let_def)
qed

lemma add_combos_effect:
  assumes "add_combos self s (map head_from_fact (domain s)) combos = (self', r)"
  shows "streams self' = streams self \<and> atoms self' = atoms self \<and>
         atoms_from_domain self' = atoms_from_domain self \<and> queue_ext self self' \<and>
         stream_instances self' \<subseteq>
           stream_instances self \<union> {inst. \<exists>c \<in> set combos. combo_instance s c = Inr (Some inst)} \<and>
         (r = Inr () \<longleftrightarrow> (\<forall>c \<in> set combos. \<exists>x. combo_instance s c = Inr x)) \<and>
         (r = Inr () \<longrightarrow> stream_instances self' =
           stream_instances self \<union> {inst. \<exists>c \<in> set combos. combo_instance s c = Inr (Some inst)})"
  using assms
proof (induction combos arbitrary: self)
  case Nil
  then show ?case by (auto simp: queue_ext_refl)
next
  case (Cons c combos)
  let ?heads = "map head_from_fact (domain s)"
  show ?case
  proof (cases "combo_instance s c")
    case (Inl e)
    then have "add_combos self s ?heads (c # combos) = (self, Inl e)"
      by (auto simp: combo_instance_def split: sum.splits option.splits)
    with Cons.prems have "self' = self" "r = Inl e" by simp_all
    then show ?thesis using Inl by (auto simp: queue_ext_refl)
  next
    case (Inr x)
    show ?thesis
    proof (cases x)
      case None
      with Inr have "add_combos self s ?heads (c # combos) = add_combos self s ?heads combos"
        by (auto simp: combo_instance_def split: sum.splits option.splits)
      with Cons.prems have "add_combos self s ?heads combos = (self', r)" by simp
      from Cons.IH[OF this] Inr None show ?thesis by auto
    next
      case (Some inst)
      with Inr obtain m objs where m: "get_mapping ?heads c = Inr (Some m)"
        "lookup_inputs m (inputs s) = Inr objs" "inst = get_instance s objs"
        by (auto simp: combo_instance_def split: sum.splits option.splits)
      let ?self1 = "fst (add_instance self s objs)"
      from m have "add_combos self s ?heads (c # combos) = add_combos ?self1 s ?heads combos"
        by simp
      with Cons.prems have "add_combos ?self1 s ?heads combos = (self', r)" by simp
      note ih = Cons.IH[OF this]
      have q: "queue_ext self self'"
        using queue_ext_trans[OF add_instance_queue_ext[of self s objs]] ih by blast
      have i1: "stream_instances ?self1 = insert inst (stream_instances self)"
        by (simp add: add_instance_instances m(3))
      from ih q i1 Inr Some show ?thesis
        by (auto simp: add_instance_frame)
    qed
  qed
qed

section \<open>One slot of one stream\<close>

lemma add_combinations_effect:
  assumes "add_combinations self s vals = (self', r)"
  shows "streams self' = streams self \<and> atoms self' = atoms self \<and>
         atoms_from_domain self' = atoms_from_domain self \<and> queue_ext self self' \<and>
         stream_instances self' \<subseteq> stream_instances self \<union>
           {inst. \<exists>c \<in> set (product_lists vals). combo_instance s c = Inr (Some inst)} \<and>
         (r = Inr () \<longleftrightarrow> (\<forall>c \<in> set (product_lists vals). \<exists>x. combo_instance s c = Inr x)) \<and>
         (r = Inr () \<longrightarrow> stream_instances self' = stream_instances self \<union>
           {inst. \<exists>c \<in> set (product_lists vals). combo_instance s c = Inr (Some inst)})"
  using add_combos_effect[of self s "product_lists vals" self' r] assms
  unfolding add_combinations_def by blast

lemma add_atom_slot_skip:
  assumes "\<not> slot_compatible h df"
    and "function_name h = get_prefix df \<longrightarrow> length (args h) = length (get_args df)"
  shows "add_atom_slot self h i s j df = (self, Inr ())"
  using assms by (auto simp: add_atom_slot_def slot_compatible_def safe_zip_def)

lemma add_atom_slot_raise:
  assumes "function_name h = get_prefix df" "length (args h) \<noteq> length (get_args df)"
  shows "add_atom_slot self h i s j df = (self, Inl AssertionError)"
  using assms by (auto simp: add_atom_slot_def safe_zip_def)

lemma add_atom_slot_match:
  assumes "slot_compatible h df"
  shows "add_atom_slot self h i s j df =
     add_combinations
       (self\<lparr>atoms_from_domain := (atoms_from_domain self)((i, j) := atoms_from_domain self (i, j) @ [h])\<rparr>) s
       (slot_vals ((atoms_from_domain self)((i, j) := atoms_from_domain self (i, j) @ [h])) h i j (length (domain s)))"
  using assms by (auto simp: add_atom_slot_def slot_compatible_def safe_zip_def slot_vals_def Let_def cong: if_cong)

lemma add_atom_slot_effect:
  assumes "add_atom_slot self h i s j df = (self', r)"
  shows "streams self' = streams self \<and> atoms self' = atoms self \<and> queue_ext self self' \<and>
     atoms_from_domain self' =
       (if slot_compatible h df
        then (atoms_from_domain self)((i, j) := atoms_from_domain self (i, j) @ [h])
        else atoms_from_domain self) \<and>
     stream_instances self' \<subseteq> stream_instances self \<union>
       (if slot_compatible h df then new_instances (atoms_from_domain self') h i s j else {}) \<and>
     (r = Inr () \<longleftrightarrow>
        (function_name h = get_prefix df \<longrightarrow> length (args h) = length (get_args df)) \<and>
        (slot_compatible h df \<longrightarrow> vals_checked (atoms_from_domain self') h i s j)) \<and>
     (r = Inr () \<longrightarrow> stream_instances self' = stream_instances self \<union>
       (if slot_compatible h df then new_instances (atoms_from_domain self') h i s j else {}))"
proof (cases "slot_compatible h df")
  case True
  let ?idx = "(atoms_from_domain self)((i, j) := atoms_from_domain self (i, j) @ [h])"
  let ?self1 = "self\<lparr>atoms_from_domain := ?idx\<rparr>"
  from add_atom_slot_match[OF True, of self i s j] assms
  have "add_combinations ?self1 s (slot_vals ?idx h i j (length (domain s))) = (self', r)" by simp
  note e = add_combinations_effect[OF this]
  from e have idx: "atoms_from_domain self' = ?idx" by simp
  have q: "queue_ext self self'"
    using e unfolding queue_ext_def by simp
  from True have ar: "function_name h = get_prefix df \<longrightarrow> length (args h) = length (get_args df)"
    by (simp add: slot_compatible_def)
  show ?thesis
    using e q True ar unfolding idx new_instances_def vals_checked_def by simp
next
  case False
  show ?thesis
  proof (cases "function_name h = get_prefix df \<longrightarrow> length (args h) = length (get_args df)")
    case True
    from add_atom_slot_skip[OF False True, of self i s j] assms
    have "self' = self" "r = Inr ()" by simp_all
    then show ?thesis using False True by (simp add: queue_ext_refl)
  next
    case F: False
    then have "add_atom_slot self h i s j df = (self, Inl AssertionError)"
      using add_atom_slot_raise by blast
    with assms have "self' = self" "r = Inl AssertionError" by simp_all
    then show ?thesis using False F by (simp add: queue_ext_refl)
  qed
qed

section \<open>Rules for the loops of \<open>add_atom\<close>\<close>

lemma add_atom_slots_rule:
  assumes "add_atom_slots self h i s j dfs = (self', r)"
    and "P j self"
    and "\<And>st j' st' r'. j \<le> j' \<Longrightarrow> j' < j + length dfs \<Longrightarrow> P j' st \<Longrightarrow>
           add_atom_slot st h i s j' (dfs ! (j' - j)) = (st', r') \<Longrightarrow>
           (case r' of Inr _ \<Rightarrow> P (Suc j') st' | Inl e \<Rightarrow> E st')"
  shows "case r of Inr _ \<Rightarrow> P (j + length dfs) self' | Inl e \<Rightarrow> E self'"
  using assms
proof (induction dfs arbitrary: self j)
  case Nil
  then show ?case by auto
next
  case (Cons df dfs)
  obtain st1 r1 where s1: "add_atom_slot self h i s j df = (st1, r1)" by (cases "add_atom_slot self h i s j df")
  have c1: "case r1 of Inr _ \<Rightarrow> P (Suc j) st1 | Inl e \<Rightarrow> E st1"
    using Cons.prems(3)[of j self st1 r1] Cons.prems(2) s1 by simp
  show ?case
  proof (cases r1)
    case (Inl e)
    with s1 Cons.prems(1) have "self' = st1" "r = Inl e" by simp_all
    with c1 Inl show ?thesis by simp
  next
    case (Inr u)
    with s1 Cons.prems(1) have run: "add_atom_slots st1 h i s (Suc j) dfs = (self', r)" by simp
    from c1 Inr have p1: "P (Suc j) st1" by simp
    have "case r of Inr _ \<Rightarrow> P (Suc j + length dfs) self' | Inl e \<Rightarrow> E self'"
    proof (rule Cons.IH[OF run p1])
      fix st j' st' r'
      assume that: "Suc j \<le> j'" "j' < Suc j + length dfs" "P j' st"
        "add_atom_slot st h i s j' (dfs ! (j' - Suc j)) = (st', r')"
      from that(1) have "(df # dfs) ! (j' - j) = dfs ! (j' - Suc j)"
        by (simp add: nth_Cons' Suc_diff_le)
      with that Cons.prems(3)[of j' st st' r']
      show "case r' of Inr _ \<Rightarrow> P (Suc j') st' | Inl e \<Rightarrow> E st'" by simp
    qed
    then show ?thesis by (cases r) simp_all
  qed
qed

lemma add_atom_streams_rule:
  assumes "add_atom_streams self h i Ss = (self', r)"
    and "P i 0 self"
    and "\<And>st i' j st' r'. i \<le> i' \<Longrightarrow> i' < i + length Ss \<Longrightarrow> j < length (domain (Ss ! (i' - i))) \<Longrightarrow>
           P i' j st \<Longrightarrow>
           add_atom_slot st h i' (Ss ! (i' - i)) j (domain (Ss ! (i' - i)) ! j) = (st', r') \<Longrightarrow>
           (case r' of Inr _ \<Rightarrow> P i' (Suc j) st' | Inl e \<Rightarrow> E st')"
    and "\<And>st i'. i \<le> i' \<Longrightarrow> i' < i + length Ss \<Longrightarrow> P i' (length (domain (Ss ! (i' - i)))) st \<Longrightarrow>
           P (Suc i') 0 st"
  shows "case r of Inr _ \<Rightarrow> P (i + length Ss) 0 self' | Inl e \<Rightarrow> E self'"
  using assms
proof (induction Ss arbitrary: self i)
  case Nil
  then show ?case by auto
next
  case (Cons s Ss)
  obtain st1 r1 where s1: "add_atom_slots self h i s 0 (domain s) = (st1, r1)"
    by (cases "add_atom_slots self h i s 0 (domain s)")
  have c1: "case r1 of Inr _ \<Rightarrow> P i (0 + length (domain s)) st1 | Inl e \<Rightarrow> E st1"
  proof (rule add_atom_slots_rule[OF s1, where P = "P i" and E = E])
    show "P i 0 self" by (rule Cons.prems(2))
  next
    fix st j' st' r'
    assume "0 \<le> j'" "j' < 0 + length (domain s)" "P i j' st"
      "add_atom_slot st h i s j' (domain s ! (j' - 0)) = (st', r')"
    with Cons.prems(3)[of i j' st st' r']
    show "case r' of Inr _ \<Rightarrow> P i (Suc j') st' | Inl e \<Rightarrow> E st'" by simp
  qed
  show ?case
  proof (cases r1)
    case (Inl e)
    with s1 Cons.prems(1) have "self' = st1" "r = Inl e" by simp_all
    with c1 Inl show ?thesis by simp
  next
    case (Inr u)
    with s1 Cons.prems(1) have run: "add_atom_streams st1 h (Suc i) Ss = (self', r)" by simp
    from c1 Inr have "P i (length (domain s)) st1" by simp
    with Cons.prems(4)[of i st1] have p1: "P (Suc i) 0 st1" by simp
    have "case r of Inr _ \<Rightarrow> P (Suc i + length Ss) 0 self' | Inl e \<Rightarrow> E self'"
    proof (rule Cons.IH[OF run p1])
      fix st i' j st' r'
      assume that: "Suc i \<le> i'" "i' < Suc i + length Ss" "j < length (domain (Ss ! (i' - Suc i)))"
        "P i' j st"
        "add_atom_slot st h i' (Ss ! (i' - Suc i)) j (domain (Ss ! (i' - Suc i)) ! j) = (st', r')"
      from that(1) have "(s # Ss) ! (i' - i) = Ss ! (i' - Suc i)"
        by (simp add: nth_Cons' Suc_diff_le)
      with that Cons.prems(3)[of i' j st st' r']
      show "case r' of Inr _ \<Rightarrow> P i' (Suc j) st' | Inl e \<Rightarrow> E st'" by simp
    next
      fix st i'
      assume that: "Suc i \<le> i'" "i' < Suc i + length Ss"
        "P i' (length (domain (Ss ! (i' - Suc i)))) st"
      from that(1) have "(s # Ss) ! (i' - i) = Ss ! (i' - Suc i)"
        by (simp add: nth_Cons' Suc_diff_le)
      with that Cons.prems(4)[of i' st] show "P (Suc i') 0 st" by simp
    qed
    then show ?thesis by (cases r) simp_all
  qed
qed

section \<open>Invariants of the state\<close>

lemma product_lists_map_iff:
  "c \<in> set (product_lists (map f [0..<K])) \<longleftrightarrow> length c = K \<and> (\<forall>k<K. c ! k \<in> set (f k))"
  unfolding product_lists_set by (auto simp: list_all2_conv_all_nth)

lemma in_slot_vals_iff:
  "c \<in> set (product_lists (slot_vals idx h i j K)) \<longleftrightarrow>
     length c = K \<and> (\<forall>k<K. if j \<noteq> k then c ! k \<in> set (idx (i, k)) else c ! k = h)"
  unfolding slot_vals_def product_lists_map_iff by auto

lemma in_slot_combos_iff:
  "c \<in> slot_combos H s \<longleftrightarrow>
     length c = length (domain s) \<and>
     (\<forall>k<length (domain s). c ! k \<in> H \<and> slot_compatible (c ! k) (domain s ! k))"
  unfolding slot_combos_def by (auto simp: list_all2_conv_all_nth)

lemma new_instances_derived:
  assumes "index_sound self" "i < length (streams self)" "j < length (domain (streams self ! i))"
    and "h \<in> atoms self" "slot_compatible h (domain (streams self ! i) ! j)"
  shows "new_instances (atoms_from_domain self) h i (streams self ! i) j
           \<subseteq> derived (atoms self) (streams self ! i)"
proof
  fix inst
  let ?s = "streams self ! i"
  assume "inst \<in> new_instances (atoms_from_domain self) h i ?s j"
  then obtain c where c: "c \<in> set (product_lists (slot_vals (atoms_from_domain self) h i j (length (domain ?s))))"
      "combo_instance ?s c = Inr (Some inst)"
    unfolding new_instances_def by blast
  from c(1) have len: "length c = length (domain ?s)"
    and el: "\<And>k. k < length (domain ?s) \<Longrightarrow>
        (if j \<noteq> k then c ! k \<in> set (atoms_from_domain self (i, k)) else c ! k = h)"
    unfolding in_slot_vals_iff by blast+
  have "c ! k \<in> atoms self \<and> slot_compatible (c ! k) (domain ?s ! k)" if "k < length (domain ?s)" for k
  proof (cases "j = k")
    case True
    with el[OF that] assms(4,5) show ?thesis by simp
  next
    case False
    with el[OF that] have "c ! k \<in> set (atoms_from_domain self (i, k))" by simp
    with assms(1) show ?thesis unfolding index_sound_def by blast
  qed
  with len have "c \<in> slot_combos (atoms self) ?s" unfolding in_slot_combos_iff by blast
  with c(2) show "inst \<in> derived (atoms self) ?s" unfolding derived_def by blast
qed

lemma queue_ext_queue_ok:
  assumes "queue_ext self self'" "queue_ok self"
  shows "queue_ok self'"
proof -
  from assms(1) obtain rest where r: "stream_queue self' = stream_queue self @ rest" "distinct rest"
      "set rest \<inter> stream_instances self = {}" "stream_instances self' = stream_instances self \<union> set rest"
    unfolding queue_ext_def by blast
  from assms(2) have q: "distinct (stream_queue self)" "set (stream_queue self) = stream_instances self"
    unfolding queue_ok_def by simp_all
  have "distinct (stream_queue self')" using r(1,2,3) q by auto
  moreover have "set (stream_queue self') = stream_instances self'" using r(1,4) q(2) by auto
  ultimately show ?thesis unfolding queue_ok_def by simp
qed

lemma queue_ext_mono:
  "queue_ext self self' \<Longrightarrow> stream_instances self \<subseteq> stream_instances self'"
  unfolding queue_ext_def by blast

lemma add_atom_slot_engine_inv:
  assumes "add_atom_slot self h i (streams self ! i) j (domain (streams self ! i) ! j) = (self', r)"
    and "engine_inv self" "h \<in> atoms self"
    and "i < length (streams self)" "j < length (domain (streams self ! i))"
  shows "engine_inv self'"
proof -
  let ?s = "streams self ! i"
  let ?df = "domain ?s ! j"
  note e = add_atom_slot_effect[OF assms(1)]
  from e have fr: "streams self' = streams self" "atoms self' = atoms self" by simp_all
  from e have q: "queue_ext self self'" by simp
  from e have idx: "atoms_from_domain self' =
       (if slot_compatible h ?df
        then (atoms_from_domain self)((i, j) := atoms_from_domain self (i, j) @ [h])
        else atoms_from_domain self)" by simp
  from e have sub: "stream_instances self' \<subseteq> stream_instances self \<union>
       (if slot_compatible h ?df then new_instances (atoms_from_domain self') h i ?s j else {})"
    by simp
  from assms(2) have inv: "index_sound self" "queue_ok self" "instances_sound self" "zero_present self"
    unfolding engine_inv_def by simp_all
  have is': "index_sound self'"
    unfolding index_sound_def fr
  proof (intro allI impI)
    fix i' j' h'
    assume m: "h' \<in> set (atoms_from_domain self' (i', j'))"
    show "i' < length (streams self) \<and> j' < length (domain (streams self ! i')) \<and>
          h' \<in> atoms self \<and> slot_compatible h' (domain (streams self ! i') ! j')"
    proof (cases "slot_compatible h ?df \<and> (i', j') = (i, j) \<and> h' = h")
      case True
      with assms(3,4,5) show ?thesis by simp
    next
      case False
      with m idx have "h' \<in> set (atoms_from_domain self (i', j'))"
        by (auto split: if_splits)
      with inv(1) show ?thesis unfolding index_sound_def by blast
    qed
  qed
  have qo: "queue_ok self'" using queue_ext_queue_ok[OF q inv(2)] .
  have so: "instances_sound self'"
  proof (cases "slot_compatible h ?df")
    case True
    have "new_instances (atoms_from_domain self') h i (streams self' ! i) j
           \<subseteq> derived (atoms self') (streams self' ! i)"
      by (rule new_instances_derived[OF is']) (use fr assms(3,4,5) True in simp_all)
    then have n: "new_instances (atoms_from_domain self') h i ?s j \<subseteq> derived (atoms self) ?s"
      by (simp only: fr)
    have "?s \<in> set (streams self)" using assms(4) by simp
    then have d: "derived (atoms self) ?s \<subseteq> all_instances (streams self) (atoms self)"
      unfolding all_instances_def by blast
    from sub True have "stream_instances self' \<subseteq>
        stream_instances self \<union> new_instances (atoms_from_domain self') h i ?s j"
      by simp
    with n d inv(3) have "stream_instances self' \<subseteq> all_instances (streams self) (atoms self)"
      unfolding instances_sound_def by blast
    then show ?thesis unfolding instances_sound_def by (simp only: fr)
  next
    case False
    with sub have "stream_instances self' \<subseteq> stream_instances self" by simp
    with inv(3) have "stream_instances self' \<subseteq> all_instances (streams self) (atoms self)"
      unfolding instances_sound_def by blast
    then show ?thesis unfolding instances_sound_def by (simp only: fr)
  qed
  have zp: "zero_present self'"
    using inv(4) queue_ext_mono[OF q] unfolding zero_present_def fr by blast
  from is' qo so zp show ?thesis unfolding engine_inv_def by simp
qed

lemma add_atom_streams_frame:
  assumes "add_atom_streams self h i Ss = (self', r)"
  shows "streams self' = streams self \<and> atoms self' = atoms self \<and> queue_ext self self'"
proof -
  let ?P = "\<lambda>(i::nat) (j::nat) st. streams st = streams self \<and> atoms st = atoms self \<and> queue_ext self st"
  have "case r of Inr _ \<Rightarrow> ?P (i + length Ss) 0 self' | Inl e \<Rightarrow> ?P 0 0 self'"
  proof (rule add_atom_streams_rule[OF assms, where P = ?P and E = "?P 0 0"])
    show "?P i 0 self" by (simp add: queue_ext_refl)
  next
    fix st i' j st' r'
    assume p: "?P i' j st"
      and s: "add_atom_slot st h i' (Ss ! (i' - i)) j (domain (Ss ! (i' - i)) ! j) = (st', r')"
    from add_atom_slot_effect[OF s] p
    have "streams st' = streams self \<and> atoms st' = atoms self \<and> queue_ext self st'"
      using queue_ext_trans[of self st st'] by simp
    then show "case r' of Inr _ \<Rightarrow> ?P i' (Suc j) st' | Inl e \<Rightarrow> ?P 0 0 st'"
      by (cases r') simp_all
  qed simp
  then show ?thesis by (cases r) simp_all
qed

lemma add_atom_streams_engine_inv:
  assumes "add_atom_streams self h 0 (streams self) = (self', r)"
    and "engine_inv self" "h \<in> atoms self"
  shows "engine_inv self'"
proof -
  let ?P = "\<lambda>(i::nat) (j::nat) st. engine_inv st \<and> streams st = streams self \<and> atoms st = atoms self"
  have "case r of Inr _ \<Rightarrow> ?P (0 + length (streams self)) 0 self' | Inl e \<Rightarrow> ?P 0 0 self'"
  proof (rule add_atom_streams_rule[OF assms(1), where P = ?P and E = "?P 0 0"])
    show "?P 0 0 self" using assms(2) by simp
  next
    fix st i' j st' r'
    assume b: "i' < 0 + length (streams self)" "j < length (domain (streams self ! (i' - 0)))"
      and p: "?P i' j st"
      and s: "add_atom_slot st h i' (streams self ! (i' - 0)) j (domain (streams self ! (i' - 0)) ! j) = (st', r')"
    from p have st: "streams st = streams self" "atoms st = atoms self" "engine_inv st" by simp_all
    from s st(1) have s': "add_atom_slot st h i' (streams st ! i') j (domain (streams st ! i') ! j) = (st', r')"
      by simp
    have "engine_inv st'"
      by (rule add_atom_slot_engine_inv[OF s' st(3)]) (use b st assms(3) in simp_all)
    moreover from add_atom_slot_effect[OF s] st
    have "streams st' = streams self" "atoms st' = atoms self" by simp_all
    ultimately show "case r' of Inr _ \<Rightarrow> ?P i' (Suc j) st' | Inl e \<Rightarrow> ?P 0 0 st'"
      by (cases r') simp_all
  qed simp
  then show ?thesis by (cases r) simp_all
qed

lemma add_atom_noop:
  assumes "\<not> is_atom a \<or> head a \<in> atoms self"
  shows "add_atom self a = (self, Inr False)"
  using assms by (auto simp: add_atom_def Let_def)

lemma add_atom_new:
  assumes "is_atom a" "head a \<notin> atoms self" "add_atom self a = (self', r)"
  shows "\<exists>r'. add_atom_streams (self\<lparr>atoms := insert (head a) (atoms self)\<rparr>) (head a) 0 (streams self) = (self', r')
           \<and> r = (case r' of Inl e \<Rightarrow> Inl e | Inr _ \<Rightarrow> Inr True)"
  using assms by (auto simp: add_atom_def Let_def split: prod.splits sum.splits)

lemma add_atom_frame:
  assumes "add_atom self a = (self', r)"
  shows "streams self' = streams self \<and> queue_ext self self' \<and>
         atoms self' = (if is_atom a then insert (head a) (atoms self) else atoms self) \<and>
         (r = Inr False \<longleftrightarrow> \<not> is_atom a \<or> head a \<in> atoms self) \<and>
         (\<not> is_atom a \<or> head a \<in> atoms self \<longrightarrow> self' = self)"
proof (cases "\<not> is_atom a \<or> head a \<in> atoms self")
  case True
  from add_atom_noop[OF True] assms have "self' = self" "r = Inr False" by simp_all
  with True show ?thesis by (auto simp: queue_ext_refl)
next
  case False
  then have n: "is_atom a" "head a \<notin> atoms self" by simp_all
  from add_atom_new[OF n assms] obtain r' where
    r': "add_atom_streams (self\<lparr>atoms := insert (head a) (atoms self)\<rparr>) (head a) 0 (streams self) = (self', r')"
      "r = (case r' of Inl e \<Rightarrow> Inl e | Inr _ \<Rightarrow> Inr True)" by blast
  from add_atom_streams_frame[OF r'(1)]
  have f: "streams self' = streams self" "atoms self' = insert (head a) (atoms self)"
    "queue_ext (self\<lparr>atoms := insert (head a) (atoms self)\<rparr>) self'" by simp_all
  from f(3) have "queue_ext self self'" unfolding queue_ext_def by simp
  moreover from r'(2) have "r \<noteq> Inr False" by (cases r') simp_all
  ultimately show ?thesis using f(1,2) n by simp
qed

lemma engine_inv_atoms_mono:
  assumes "engine_inv self"
  shows "engine_inv (self\<lparr>atoms := insert h (atoms self)\<rparr>)"
proof -
  have "derived (atoms self) s \<subseteq> derived (insert h (atoms self)) s" for s
    unfolding derived_def slot_combos_def
    by (auto elim!: list_all2_mono)
  then have "all_instances S (atoms self) \<subseteq> all_instances S (insert h (atoms self))" for S
    unfolding all_instances_def by blast
  then have "stream_instances self \<subseteq> all_instances (streams self) (atoms self) \<Longrightarrow>
      stream_instances self \<subseteq> all_instances (streams self) (insert h (atoms self))"
    by blast
  with assms show ?thesis
    unfolding engine_inv_def index_sound_def queue_ok_def instances_sound_def zero_present_def
    by simp
qed

lemma add_atom_engine_inv:
  assumes "add_atom self a = (self', r)" "engine_inv self"
  shows "engine_inv self'"
proof (cases "\<not> is_atom a \<or> head a \<in> atoms self")
  case True
  from add_atom_noop[OF True] assms show ?thesis by simp
next
  case False
  then have n: "is_atom a" "head a \<notin> atoms self" by simp_all
  let ?self1 = "self\<lparr>atoms := insert (head a) (atoms self)\<rparr>"
  from add_atom_new[OF n assms(1)] obtain r' where
    r': "add_atom_streams ?self1 (head a) 0 (streams ?self1) = (self', r')" by auto
  show ?thesis
    by (rule add_atom_streams_engine_inv[OF r' engine_inv_atoms_mono[OF assms(2)]]) simp
qed

lemma add_atoms_rule:
  assumes "add_atoms self xs = (self', r)" "P self"
    and "\<And>st a st' r'. a \<in> set xs \<Longrightarrow> P st \<Longrightarrow> add_atom st a = (st', r') \<Longrightarrow> P st'"
  shows "P self'"
  using assms
proof (induction xs arbitrary: self)
  case Nil
  then show ?case by auto
next
  case (Cons a xs)
  obtain st1 r1 where s1: "add_atom self a = (st1, r1)" by (cases "add_atom self a")
  have p1: "P st1" using Cons.prems(3)[of a self st1 r1] Cons.prems(2) s1 by simp
  show ?case
  proof (cases r1)
    case (Inl e)
    with s1 Cons.prems(1) have "self' = st1" by simp
    with p1 show ?thesis by simp
  next
    case (Inr b)
    with s1 Cons.prems(1) have run: "add_atoms st1 xs = (self', r)" by simp
    show ?thesis
    proof (rule Cons.IH[OF run p1])
      fix st a' st' r'
      assume "a' \<in> set xs" "P st" "add_atom st a' = (st', r')"
      with Cons.prems(3)[of a' st st' r'] show "P st'" by simp
    qed
  qed
qed

lemma add_atoms_engine_inv:
  assumes "add_atoms self xs = (self', r)" "engine_inv self"
  shows "engine_inv self' \<and> streams self' = streams self \<and> queue_ext self self' \<and>
         atoms self \<subseteq> atoms self'"
proof -
  let ?P = "\<lambda>st. engine_inv st \<and> streams st = streams self \<and> queue_ext self st \<and> atoms self \<subseteq> atoms st"
  show ?thesis
  proof (rule add_atoms_rule[OF assms(1), where P = ?P])
    show "?P self" using assms(2) by (simp add: queue_ext_refl)
  next
    fix st a st' r'
    assume p: "?P st" and s: "add_atom st a = (st', r')"
    from add_atom_frame[OF s] p have "streams st' = streams self" "queue_ext self st'" "atoms self \<subseteq> atoms st'"
      using queue_ext_trans[of self st st'] by (auto split: if_splits)
    with add_atom_engine_inv[OF s] p show "?P st'" by simp
  qed
qed

section \<open>The constructor\<close>

lemma zero_instances_Cons:
  "zero_instances (s # Ss) = (if inputs s = [] then {get_instance s []} else {}) \<union> zero_instances Ss"
  unfolding zero_instances_def by auto

lemma add_zero_input_effect:
  "streams (add_zero_input self Ss) = streams self \<and>
   atoms (add_zero_input self Ss) = atoms self \<and>
   atoms_from_domain (add_zero_input self Ss) = atoms_from_domain self \<and>
   queue_ext self (add_zero_input self Ss) \<and>
   stream_instances (add_zero_input self Ss) = stream_instances self \<union> zero_instances Ss"
proof (induction Ss arbitrary: self)
  case Nil
  show ?case by (simp add: queue_ext_refl zero_instances_def)
next
  case (Cons s Ss)
  show ?case
  proof (cases "inputs s = []")
    case True
    let ?self1 = "fst (add_instance self s [])"
    have e: "add_zero_input self (s # Ss) = add_zero_input ?self1 Ss" using True by simp
    have q: "queue_ext self (add_zero_input ?self1 Ss)"
      using queue_ext_trans[OF add_instance_queue_ext[of self s "[]"]] Cons.IH[of ?self1] by blast
    show ?thesis
      unfolding e zero_instances_Cons using Cons.IH[of ?self1] q True
      by (simp add: add_instance_frame add_instance_instances)
  next
    case False
    then show ?thesis unfolding zero_instances_Cons using Cons.IH[of self] by simp
  qed
qed

lemma initial_state:
  "streams (add_zero_input (empty_instantiator S) S) = S"
  "atoms (add_zero_input (empty_instantiator S) S) = {}"
  "atoms_from_domain (add_zero_input (empty_instantiator S) S) = (\<lambda>_. [])"
  "stream_instances (add_zero_input (empty_instantiator S) S) = zero_instances S"
  using add_zero_input_effect[of "empty_instantiator S" S]
  by (simp_all add: empty_instantiator_def)

lemma initial_queue_ok: "queue_ok (add_zero_input (empty_instantiator S) S)"
proof -
  have "queue_ok (empty_instantiator S)" by (simp add: queue_ok_def empty_instantiator_def)
  with add_zero_input_effect[of "empty_instantiator S" S] show ?thesis
    using queue_ext_queue_ok by blast
qed

lemma initial_engine_inv: "engine_inv (add_zero_input (empty_instantiator S) S)"
  unfolding engine_inv_def index_sound_def instances_sound_def zero_present_def
  using initial_queue_ok[of S]
  by (simp add: initial_state all_instances_def)

lemma Instantiator_Inr:
  "Instantiator evaluations S = Inr self \<longleftrightarrow>
     add_atoms (add_zero_input (empty_instantiator S) S) evaluations = (self, Inr ())"
  unfolding Instantiator_def by (auto split: prod.splits sum.splits)

lemma lookup_inputs_length: "lookup_inputs m ps = Inr objs \<Longrightarrow> length objs = length ps"
  by (induction ps arbitrary: objs) (auto split: option.splits sum.splits)

lemma combo_instance_shape:
  assumes "combo_instance s c = Inr (Some inst)"
  shows "fst inst = s \<and> length (snd inst) = length (inputs s)"
  using assms lookup_inputs_length
  by (auto simp: combo_instance_def get_instance_def split: sum.splits option.splits)

lemma all_instances_shape:
  assumes "inst \<in> all_instances S H"
  shows "fst inst \<in> set S \<and> length (snd inst) = length (inputs (fst inst))"
proof (cases "inst \<in> zero_instances S")
  case True
  then show ?thesis unfolding zero_instances_def get_instance_def by auto
next
  case False
  with assms obtain s c where "s \<in> set S" "combo_instance s c = Inr (Some inst)"
    unfolding all_instances_def derived_def by blast
  with combo_instance_shape[of s c inst] show ?thesis by simp
qed

lemma all_instances_zero:
  assumes "inst \<in> all_instances S H" "inputs (fst inst) = []"
  shows "inst \<in> zero_instances S"
proof -
  from all_instances_shape[OF assms(1)] assms(2)
  have "fst inst \<in> set S" "snd inst = []" by simp_all
  with assms(2) have "get_instance (fst inst) [] = inst \<and> fst inst \<in> set S \<and> inputs (fst inst) = []"
    by (simp add: get_instance_def prod_eq_iff)
  then show ?thesis
    unfolding zero_instances_def by (intro CollectI exI[of _ "fst inst"]) simp
qed

lemma filter_single:
  assumes "distinct q" "x \<in> set q" "\<And>y. y \<in> set q \<Longrightarrow> P y \<Longrightarrow> y = x" "P x"
  shows "filter P q = [x]"
  using assms(1,2,3)
proof (induction q)
  case Nil
  then show ?case by simp
next
  case (Cons a q)
  show ?case
  proof (cases "a = x")
    case True
    from Cons.prems(1) True have nx: "x \<notin> set q" by simp
    have "\<not> P y" if "y \<in> set q" for y
    proof
      assume "P y"
      with Cons.prems(3)[of y] that have "y = x" by simp
      with that nx show False by simp
    qed
    then have "filter P q = []" by (simp add: filter_empty_conv)
    with True assms(4) show ?thesis by simp
  next
    case False
    with Cons.prems(2) have xq: "x \<in> set q" by simp
    from Cons.prems(3)[of a] False have na: "\<not> P a" by auto
    from Cons.prems(1) have dq: "distinct q" by simp
    have "filter P q = [x]"
      by (rule Cons.IH[OF dq xq]) (use Cons.prems(3) in simp)
    with na show ?thesis by simp
  qed
qed

lemma engine_inv_zero_filter:
  assumes "engine_inv self" "s \<in> set (streams self)" "inputs s = []"
  shows "filter (\<lambda>inst. fst inst = s) (stream_queue self) = [get_instance s []]"
proof (rule filter_single)
  from assms(1) have inv: "queue_ok self" "instances_sound self" "zero_present self"
    unfolding engine_inv_def by simp_all
  show "distinct (stream_queue self)" using inv(1) unfolding queue_ok_def by simp
  have "get_instance s [] \<in> zero_instances (streams self)"
    unfolding zero_instances_def using assms(2,3) by blast
  then show "get_instance s [] \<in> set (stream_queue self)"
    using inv(1,3) unfolding queue_ok_def zero_present_def by blast
  show "fst (get_instance s []) = s" by (simp add: get_instance_def)
  fix y assume y: "y \<in> set (stream_queue self)" "fst y = s"
  then have "y \<in> all_instances (streams self) (atoms self)"
    using inv(1,2) unfolding queue_ok_def instances_sound_def by blast
  from all_instances_shape[OF this] y(2) assms(3) have "snd y = []" by simp
  with y(2) show "y = get_instance s []" by (simp add: get_instance_def prod_eq_iff)
qed

lemma add_atom_streams_arity:
  assumes "add_atom_streams self h 0 S = (self', Inr u)"
  shows "arity_ok S h"
proof -
  let ?ok = "\<lambda>df. function_name h = get_prefix df \<longrightarrow> length (args h) = length (get_args df)"
  let ?P = "\<lambda>(i::nat) (j::nat) (st::instantiator).
      \<forall>i' j'. i' < length S \<and> j' < length (domain (S ! i')) \<and> (i' < i \<or> (i' = i \<and> j' < j))
        \<longrightarrow> ?ok (domain (S ! i') ! j')"
  have "case (Inr u :: error + unit) of Inr _ \<Rightarrow> ?P (0 + length S) 0 self' | Inl e \<Rightarrow> True"
  proof (rule add_atom_streams_rule[OF assms, where P = ?P and E = "\<lambda>_. True"])
    show "?P 0 0 self" by simp
  next
    fix st i' j st' r'
    assume b: "i' < 0 + length S" "j < length (domain (S ! (i' - 0)))"
      and p: "?P i' j st"
      and s: "add_atom_slot st h i' (S ! (i' - 0)) j (domain (S ! (i' - 0)) ! j) = (st', r')"
    show "case r' of Inr _ \<Rightarrow> ?P i' (Suc j) st' | Inl e \<Rightarrow> True"
    proof (cases r')
      case (Inl e)
      then show ?thesis by simp
    next
      case (Inr v)
      with add_atom_slot_effect[OF s] have ok: "?ok (domain (S ! i') ! j)" by simp
      have "?P i' (Suc j) st'"
      proof (intro allI, rule impI)
        fix i'' j''
        assume h: "i'' < length S \<and> j'' < length (domain (S ! i'')) \<and> (i'' < i' \<or> (i'' = i' \<and> j'' < Suc j))"
        show "?ok (domain (S ! i'') ! j'')"
        proof (cases "i'' = i' \<and> j'' = j")
          case True
          with ok show ?thesis by simp
        next
          case False
          with h have "i'' < length S \<and> j'' < length (domain (S ! i'')) \<and> (i'' < i' \<or> (i'' = i' \<and> j'' < j))"
            by auto
          with p show ?thesis by blast
        qed
      qed
      with Inr show ?thesis by simp
    qed
  next
    fix st i'
    assume b: "i' < 0 + length S" and p: "?P i' (length (domain (S ! (i' - 0)))) st"
    show "?P (Suc i') 0 st"
    proof (intro allI, rule impI)
      fix i'' j''
      assume h: "i'' < length S \<and> j'' < length (domain (S ! i'')) \<and> (i'' < Suc i' \<or> (i'' = Suc i' \<and> j'' < 0))"
      then have "i'' < length S \<and> j'' < length (domain (S ! i'')) \<and>
          (i'' < i' \<or> (i'' = i' \<and> j'' < length (domain (S ! (i' - 0)))))"
        by (cases "i'' = i'") auto
      with p show "?ok (domain (S ! i'') ! j'')" by blast
    qed
  qed
  then have all: "\<And>i' j'. i' < length S \<Longrightarrow> j' < length (domain (S ! i')) \<Longrightarrow> ?ok (domain (S ! i') ! j')"
    by simp
  show ?thesis
    unfolding arity_ok_def
  proof (intro ballI)
    fix s df assume "s \<in> set S" "df \<in> set (domain s)"
    then obtain i' j' where "i' < length S" "s = S ! i'" "j' < length (domain s)" "df = domain s ! j'"
      by (metis in_set_conv_nth)
    with all[of i' j'] show "?ok df" by simp
  qed
qed

lemma add_atom_arity:
  assumes "add_atom self a = (self', Inr True)"
  shows "arity_ok (streams self) (head a)"
proof -
  from add_atom_frame[OF assms] have n: "is_atom a" "head a \<notin> atoms self" by auto
  from add_atom_new[OF n assms] obtain r' where
    r': "add_atom_streams (self\<lparr>atoms := insert (head a) (atoms self)\<rparr>) (head a) 0 (streams self) = (self', r')"
      "Inr True = (case r' of Inl e \<Rightarrow> Inl e | Inr _ \<Rightarrow> Inr True)" by blast
  from r'(2) obtain u where "r' = Inr u" by (cases r') simp_all
  with r'(1) show ?thesis using add_atom_streams_arity by blast
qed

lemmas engine_eval = empty_instantiator_def add_atom_def is_atom_def add_atom_slot_def
  safe_zip_def add_combinations_def get_mapping_def head_from_fact_def add_instance_def
  get_instance_def Let_def

lemma reachable_engine_inv:
  assumes "add_atoms (add_zero_input (empty_instantiator S) S) xs = (self, r)"
  shows "engine_inv self \<and> streams self = S \<and>
         queue_ext (add_zero_input (empty_instantiator S) S) self"
  using add_atoms_engine_inv[OF assms initial_engine_inv] by (simp add: initial_state)

lemma slot_compatible_positional:
  "slot_compatible h df \<longleftrightarrow>
     function_name h = get_prefix df \<and> length (args h) = length (get_args df) \<and>
     (\<forall>p < length (args h). is_Object (get_args df ! p) \<longrightarrow> args h ! p = get_args df ! p)"
proof (cases "length (args h) = length (get_args df)")
  case False
  then show ?thesis by (simp add: slot_compatible_def)
next
  case True
  have "list_ex (\<lambda>(a, b). is_Object b \<and> a \<noteq> b) (zip (args h) (get_args df)) \<longleftrightarrow>
      (\<exists>p < length (args h). is_Object (get_args df ! p) \<and> args h ! p \<noteq> get_args df ! p)"
    unfolding list_ex_iff set_zip using True by auto
  then show ?thesis unfolding slot_compatible_def using True by auto
qed

section \<open>Exactness of the incremental join\<close>

lemma slot_vals_slot_combos:
  assumes "index_sound self" "i < length (streams self)" "j < length (domain (streams self ! i))"
    and "h \<in> atoms self" "slot_compatible h (domain (streams self ! i) ! j)"
  shows "set (product_lists (slot_vals (atoms_from_domain self) h i j (length (domain (streams self ! i)))))
           \<subseteq> slot_combos (atoms self) (streams self ! i)"
proof
  fix c
  let ?s = "streams self ! i"
  assume "c \<in> set (product_lists (slot_vals (atoms_from_domain self) h i j (length (domain ?s))))"
  then have len: "length c = length (domain ?s)"
    and el: "\<And>k. k < length (domain ?s) \<Longrightarrow>
        (if j \<noteq> k then c ! k \<in> set (atoms_from_domain self (i, k)) else c ! k = h)"
    unfolding in_slot_vals_iff by blast+
  have "c ! k \<in> atoms self \<and> slot_compatible (c ! k) (domain ?s ! k)" if "k < length (domain ?s)" for k
  proof (cases "j = k")
    case True
    with el[OF that] assms(4,5) show ?thesis by simp
  next
    case False
    with el[OF that] have "c ! k \<in> set (atoms_from_domain self (i, k))" by simp
    with assms(1) show ?thesis unfolding index_sound_def by blast
  qed
  with len show "c \<in> slot_combos (atoms self) ?s" unfolding in_slot_combos_iff by blast
qed

lemma idx_combos_iff:
  "c \<in> idx_combos self i \<longleftrightarrow>
     length c = length (domain (streams self ! i)) \<and>
     (\<forall>k < length (domain (streams self ! i)). c ! k \<in> set (atoms_from_domain self (i, k)))"
  unfolding idx_combos_def product_lists_map_iff by simp

lemma idx_combos_slot_combos:
  assumes "index_sound self" "index_complete self" "i < length (streams self)"
  shows "idx_combos self i = slot_combos (atoms self) (streams self ! i)"
proof (intro set_eqI iffI)
  fix c assume "c \<in> idx_combos self i"
  then have len: "length c = length (domain (streams self ! i))"
    and el: "\<And>k. k < length (domain (streams self ! i)) \<Longrightarrow> c ! k \<in> set (atoms_from_domain self (i, k))"
    unfolding idx_combos_iff by blast+
  have "c ! k \<in> atoms self \<and> slot_compatible (c ! k) (domain (streams self ! i) ! k)"
    if "k < length (domain (streams self ! i))" for k
    using el[OF that] assms(1) unfolding index_sound_def by blast
  with len show "c \<in> slot_combos (atoms self) (streams self ! i)"
    unfolding in_slot_combos_iff by blast
next
  fix c assume "c \<in> slot_combos (atoms self) (streams self ! i)"
  then have len: "length c = length (domain (streams self ! i))"
    and el: "\<And>k. k < length (domain (streams self ! i)) \<Longrightarrow>
       c ! k \<in> atoms self \<and> slot_compatible (c ! k) (domain (streams self ! i) ! k)"
    unfolding in_slot_combos_iff by blast+
  have "c ! k \<in> set (atoms_from_domain self (i, k))" if "k < length (domain (streams self ! i))" for k
    using el[OF that] that assms(2,3) unfolding index_complete_def by blast
  with len show "c \<in> idx_combos self i" unfolding idx_combos_iff by blast
qed

lemma derived_empty_domain:
  assumes "domain s = []" "s \<in> set S"
  shows "derived H s \<subseteq> zero_instances S"
proof
  fix inst assume "inst \<in> derived H s"
  then obtain c where c: "c \<in> slot_combos H s" "combo_instance s c = Inr (Some inst)"
    unfolding derived_def by blast
  from c(1) assms(1) have "c = []" unfolding in_slot_combos_iff by simp
  with c(2) assms(1) obtain objs where o: "lookup_inputs Map.empty (inputs s) = Inr objs"
      "inst = get_instance s objs"
    by (auto simp: combo_instance_def get_mapping_def safe_zip_def split: sum.splits)
  from o(1) have "inputs s = []" by (cases "inputs s") simp_all
  with o have "inst = get_instance s []" by simp
  with \<open>inputs s = []\<close> assms(2) show "inst \<in> zero_instances S"
    unfolding zero_instances_def by blast
qed

lemma exact_inv_instances:
  assumes "exact_inv self"
  shows "stream_instances self = all_instances (streams self) (atoms self)"
proof -
  let ?S = "streams self"
  from assms have inv: "index_sound self" "index_complete self" "instances_exact self"
    "instances_sound self"
    unfolding exact_inv_def engine_inv_def by simp_all
  have "all_instances ?S (atoms self) \<subseteq> stream_instances self"
  proof
    fix inst assume a: "inst \<in> all_instances ?S (atoms self)"
    show "inst \<in> stream_instances self"
    proof (cases "inst \<in> zero_instances ?S")
      case True
      with inv(3) show ?thesis unfolding instances_exact_def by blast
    next
      case False
      with a obtain s where s: "s \<in> set ?S" "inst \<in> derived (atoms self) s"
        unfolding all_instances_def by blast
      from derived_empty_domain[OF _ s(1), of "atoms self"] s(2) False have ne: "domain s \<noteq> []"
        by blast
      from s(1) obtain i where i: "i < length ?S" "s = ?S ! i" by (metis in_set_conv_nth)
      from s(2) obtain c where c: "c \<in> slot_combos (atoms self) s" "combo_instance s c = Inr (Some inst)"
        unfolding derived_def by blast
      from c(1) i have "c \<in> idx_combos self i"
        using idx_combos_slot_combos[OF inv(1,2) i(1)] by simp
      with i c(2) ne have "inst \<in> idx_instances self"
        unfolding idx_instances_def by blast
      with inv(3) show ?thesis unfolding instances_exact_def by blast
    qed
  qed
  with inv(4) show ?thesis unfolding instances_sound_def by blast
qed

lemma exact_inv_no_errors:
  assumes "exact_inv self"
  shows "no_errors (streams self) (atoms self)"
proof -
  let ?S = "streams self"
  from assms have inv: "index_sound self" "index_complete self" "combos_checked self"
    "\<forall>h \<in> atoms self. arity_ok ?S h"
    unfolding exact_inv_def engine_inv_def by simp_all
  have "\<exists>x. combo_instance s c = Inr x"
    if "s \<in> set ?S" "domain s \<noteq> []" "c \<in> slot_combos (atoms self) s" for s c
  proof -
    from that(1) obtain i where i: "i < length ?S" "s = ?S ! i" by (metis in_set_conv_nth)
    from that(3) i have "c \<in> idx_combos self i"
      using idx_combos_slot_combos[OF inv(1,2) i(1)] by simp
    with inv(3) i that(2) show ?thesis unfolding combos_checked_def by blast
  qed
  with inv(4) show ?thesis unfolding no_errors_def by blast
qed

lemma no_errors_mono:
  assumes "no_errors S H'" "H \<subseteq> H'"
  shows "no_errors S H"
proof -
  have "slot_combos H s \<subseteq> slot_combos H' s" for s
    unfolding slot_combos_def using assms(2) by (auto elim!: list_all2_mono)
  with assms show ?thesis unfolding no_errors_def by blast
qed

lemma add_atoms_frame:
  assumes "add_atoms self xs = (self', r)"
  shows "streams self' = streams self \<and> atoms self \<subseteq> atoms self'"
proof -
  let ?P = "\<lambda>st. streams st = streams self \<and> atoms self \<subseteq> atoms st"
  show ?thesis
  proof (rule add_atoms_rule[OF assms, where P = ?P])
    show "?P self" by simp
  next
    fix st a st' r'
    assume p: "?P st" and s: "add_atom st a = (st', r')"
    from add_atom_frame[OF s] have "streams st' = streams st" "atoms st \<subseteq> atoms st'"
      by (auto split: if_splits)
    with p show "?P st'" by auto
  qed
qed

lemma add_atoms_catching_atoms: "atoms self \<subseteq> atoms (add_atoms_catching self zs)"
proof (induction zs arbitrary: self)
  case Nil
  show ?case by simp
next
  case (Cons a zs)
  have "add_atom self a = (fst (add_atom self a), snd (add_atom self a))" by simp
  from add_atom_frame[OF this] have "atoms self \<subseteq> atoms (fst (add_atom self a))"
    by (auto split: if_splits)
  with Cons.IH[of "fst (add_atom self a)"] show ?case by auto
qed

lemma combos_append_slot:
  assumes "j < K"
  shows "set (product_lists (map (\<lambda>k. (idx((i, j) := idx (i, j) @ [h])) (i, k)) [0..<K])) =
         set (product_lists (map (\<lambda>k. idx (i, k)) [0..<K])) \<union>
         set (product_lists (slot_vals (idx((i, j) := idx (i, j) @ [h])) h i j K))"
    (is "?L = ?A \<union> ?B")
proof (intro set_eqI iffI)
  fix c assume "c \<in> ?L"
  then have len: "length c = K"
    and el: "\<And>k. k < K \<Longrightarrow> c ! k \<in> set ((idx((i, j) := idx (i, j) @ [h])) (i, k))"
    unfolding product_lists_map_iff by blast+
  show "c \<in> ?A \<union> ?B"
  proof (cases "c ! j = h")
    case True
    have "if j \<noteq> k then c ! k \<in> set ((idx((i, j) := idx (i, j) @ [h])) (i, k)) else c ! k = h"
      if "k < K" for k
      using el[OF that] True by (cases "j = k") simp_all
    with len have "c \<in> ?B" unfolding in_slot_vals_iff by blast
    then show ?thesis by simp
  next
    case False
    have "c ! k \<in> set (idx (i, k))" if "k < K" for k
      using el[OF that] False by (cases "j = k") auto
    with len have "c \<in> ?A" unfolding product_lists_map_iff by blast
    then show ?thesis by simp
  qed
next
  fix c assume "c \<in> ?A \<union> ?B"
  then show "c \<in> ?L"
  proof
    assume "c \<in> ?A"
    then have len: "length c = K" and el: "\<And>k. k < K \<Longrightarrow> c ! k \<in> set (idx (i, k))"
      unfolding product_lists_map_iff by blast+
    have "c ! k \<in> set ((idx((i, j) := idx (i, j) @ [h])) (i, k))" if "k < K" for k
      using el[OF that] by (cases "j = k") auto
    with len show ?thesis unfolding product_lists_map_iff by blast
  next
    assume "c \<in> ?B"
    then have len: "length c = K"
      and el: "\<And>k. k < K \<Longrightarrow>
        (if j \<noteq> k then c ! k \<in> set ((idx((i, j) := idx (i, j) @ [h])) (i, k)) else c ! k = h)"
      unfolding in_slot_vals_iff by blast+
    have "c ! k \<in> set ((idx((i, j) := idx (i, j) @ [h])) (i, k))" if "k < K" for k
      using el[OF that] by (cases "j = k") auto
    with len show ?thesis unfolding product_lists_map_iff by blast
  qed
qed

lemma idx_instances_iff:
  "inst \<in> idx_instances self \<longleftrightarrow>
     (\<exists>i c. i < length (streams self) \<and> domain (streams self ! i) \<noteq> [] \<and>
        c \<in> idx_combos self i \<and> combo_instance (streams self ! i) c = Inr (Some inst))"
  unfolding idx_instances_def by blast

lemma idx_combos_cong:
  "streams self' = streams self \<Longrightarrow> atoms_from_domain self' = atoms_from_domain self \<Longrightarrow>
   idx_combos self' i = idx_combos self i"
  unfolding idx_combos_def by simp

lemma idx_instances_cong:
  assumes "streams self' = streams self" "atoms_from_domain self' = atoms_from_domain self"
  shows "idx_instances self' = idx_instances self"
  unfolding idx_instances_def idx_combos_def assms ..

lemma instances_exact_cong:
  assumes "streams self' = streams self" "atoms_from_domain self' = atoms_from_domain self"
    "stream_instances self' = stream_instances self"
  shows "instances_exact self' = instances_exact self"
  unfolding instances_exact_def idx_instances_cong[OF assms(1,2)] assms ..

lemma combos_checked_cong:
  assumes "streams self' = streams self" "atoms_from_domain self' = atoms_from_domain self"
  shows "combos_checked self' = combos_checked self"
  unfolding combos_checked_def idx_combos_def assms ..

lemma add_atom_slot_exact:
  assumes "add_atom_slot self h i (streams self ! i) j (domain (streams self ! i) ! j) = (self', Inr u)"
    and "instances_exact self" "combos_checked self"
    and "i < length (streams self)" "j < length (domain (streams self ! i))"
  shows "instances_exact self' \<and> combos_checked self'"
proof -
  let ?S = "streams self"
  let ?s = "?S ! i"
  let ?df = "domain ?s ! j"
  let ?K = "length (domain ?s)"
  let ?idx = "atoms_from_domain self"
  note e = add_atom_slot_effect[OF assms(1)]
  from e have fr: "streams self' = ?S" by simp
  from assms(5) have ne: "domain ?s \<noteq> []" by auto
  show ?thesis
  proof (cases "slot_compatible h ?df")
    case False
    with e have same: "atoms_from_domain self' = ?idx" "stream_instances self' = stream_instances self"
      by simp_all
    from assms(2) have "instances_exact self'"
      using instances_exact_cong[OF fr same] by simp
    moreover from assms(3) have "combos_checked self'"
      using combos_checked_cong[OF fr same(1)] by simp
    ultimately show ?thesis by simp
  next
    case True
    let ?idx' = "?idx((i, j) := ?idx (i, j) @ [h])"
    let ?V = "set (product_lists (slot_vals ?idx' h i j ?K))"
    let ?N = "{inst. \<exists>c \<in> ?V. combo_instance ?s c = Inr (Some inst)}"
    from e True have idx: "atoms_from_domain self' = ?idx'" by simp
    from e True idx have "stream_instances self' =
        stream_instances self \<union> new_instances ?idx' h i ?s j" by simp
    then have inst: "stream_instances self' = stream_instances self \<union> ?N"
      unfolding new_instances_def .
    from e True idx have "vals_checked ?idx' h i ?s j" by simp
    then have chk: "\<And>c. c \<in> ?V \<Longrightarrow> \<exists>x. combo_instance ?s c = Inr x"
      unfolding vals_checked_def by blast
    have ic_i: "idx_combos self' i = idx_combos self i \<union> ?V"
      unfolding idx_combos_def fr idx by (rule combos_append_slot[OF assms(5)])
    have ic_o: "idx_combos self' i' = idx_combos self i'" if "i' \<noteq> i" for i'
      unfolding idx_combos_def fr idx using that by simp
    have ic_cases: "c \<in> idx_combos self' i' \<longleftrightarrow> c \<in> idx_combos self i' \<or> (i' = i \<and> c \<in> ?V)" for c i'
      using ic_i ic_o[of i'] by (cases "i' = i") auto
    have d: "idx_instances self' = idx_instances self \<union> ?N"
    proof (intro set_eqI iffI)
      fix inst assume "inst \<in> idx_instances self'"
      then obtain i' c where ic: "i' < length ?S" "domain (?S ! i') \<noteq> []" "c \<in> idx_combos self' i'"
          "combo_instance (?S ! i') c = Inr (Some inst)"
        unfolding idx_instances_iff fr by blast
      from ic(3) have "c \<in> idx_combos self i' \<or> (i' = i \<and> c \<in> ?V)" unfolding ic_cases .
      then show "inst \<in> idx_instances self \<union> ?N"
      proof
        assume "c \<in> idx_combos self i'"
        with ic(1,2,4) have "inst \<in> idx_instances self" unfolding idx_instances_iff by blast
        then show ?thesis by simp
      next
        assume "i' = i \<and> c \<in> ?V"
        with ic(4) have "inst \<in> ?N" by blast
        then show ?thesis by simp
      qed
    next
      fix inst assume "inst \<in> idx_instances self \<union> ?N"
      then show "inst \<in> idx_instances self'"
      proof
        assume "inst \<in> idx_instances self"
        then obtain i' c where ic: "i' < length ?S" "domain (?S ! i') \<noteq> []" "c \<in> idx_combos self i'"
          "combo_instance (?S ! i') c = Inr (Some inst)"
          unfolding idx_instances_iff by blast
        from ic(3) have "c \<in> idx_combos self' i'" unfolding ic_cases by simp
        with ic(1,2,4) show ?thesis unfolding idx_instances_iff fr by blast
      next
        assume "inst \<in> ?N"
        then obtain c where c: "c \<in> ?V" "combo_instance ?s c = Inr (Some inst)" by blast
        from c(1) have "c \<in> idx_combos self' i" unfolding ic_cases by simp
        with c(2) assms(4) ne show ?thesis unfolding idx_instances_iff fr by blast
      qed
    qed
    from assms(2) have "stream_instances self = zero_instances ?S \<union> idx_instances self"
      unfolding instances_exact_def .
    then have "stream_instances self' = zero_instances ?S \<union> idx_instances self'"
      unfolding inst d by (simp add: Un_assoc)
    then have 1: "instances_exact self'" unfolding instances_exact_def fr .
    have 2: "combos_checked self'"
      unfolding combos_checked_def fr
    proof (intro allI impI ballI)
      fix i' c assume ic: "i' < length ?S" "domain (?S ! i') \<noteq> []" "c \<in> idx_combos self' i'"
      from ic(3) have "c \<in> idx_combos self i' \<or> (i' = i \<and> c \<in> ?V)" unfolding ic_cases .
      then show "\<exists>x. combo_instance (?S ! i') c = Inr x"
      proof
        assume "c \<in> idx_combos self i'"
        with assms(3) ic(1,2) show ?thesis unfolding combos_checked_def by blast
      next
        assume "i' = i \<and> c \<in> ?V"
        with chk[of c] show ?thesis by simp
      qed
    qed
    from 1 2 show ?thesis by simp
  qed
qed

lemma add_atom_streams_exact:
  assumes run: "add_atom_streams self h 0 (streams self) = (self', Inr u)"
    and ex: "instances_exact self" "combos_checked self"
    and co: "\<forall>i j h'. i < length (streams self) \<and> j < length (domain (streams self ! i)) \<and>
        h' \<in> H0 \<and> slot_compatible h' (domain (streams self ! i) ! j)
        \<longrightarrow> h' \<in> set (atoms_from_domain self (i, j))"
  shows "instances_exact self' \<and> combos_checked self' \<and>
    (\<forall>i j h'. i < length (streams self) \<and> j < length (domain (streams self ! i)) \<and>
        h' \<in> insert h H0 \<and> slot_compatible h' (domain (streams self ! i) ! j)
        \<longrightarrow> h' \<in> set (atoms_from_domain self' (i, j)))"
proof -
  let ?S = "streams self"
  let ?C = "\<lambda>(i::nat) (j::nat) st. \<forall>i' j' h'.
      i' < length ?S \<and> j' < length (domain (?S ! i')) \<and> slot_compatible h' (domain (?S ! i') ! j') \<and>
      (h' \<in> H0 \<or> (h' = h \<and> (i' < i \<or> (i' = i \<and> j' < j))))
      \<longrightarrow> h' \<in> set (atoms_from_domain st (i', j'))"
  let ?P = "\<lambda>i j st. streams st = ?S \<and> instances_exact st \<and> combos_checked st \<and> ?C i j st"
  have "case (Inr u :: error + unit) of Inr _ \<Rightarrow> ?P (0 + length ?S) 0 self' | Inl e \<Rightarrow> True"
  proof (rule add_atom_streams_rule[OF run, where P = ?P and E = "\<lambda>_. True"])
    show "?P 0 0 self" using ex co by simp
  next
    fix st i' j st' r'
    assume b: "i' < 0 + length ?S" "j < length (domain (?S ! (i' - 0)))"
      and p: "?P i' j st"
      and s: "add_atom_slot st h i' (?S ! (i' - 0)) j (domain (?S ! (i' - 0)) ! j) = (st', r')"
    show "case r' of Inr _ \<Rightarrow> ?P i' (Suc j) st' | Inl e \<Rightarrow> True"
    proof (cases r')
      case (Inl e)
      then show ?thesis by simp
    next
      case (Inr v)
      from p have st: "streams st = ?S" "instances_exact st" "combos_checked st" and c: "?C i' j st"
        by blast+
      from s Inr st(1) have s': "add_atom_slot st h i' (streams st ! i') j (domain (streams st ! i') ! j) = (st', Inr v)"
        by simp
      have x: "instances_exact st' \<and> combos_checked st'"
        by (rule add_atom_slot_exact[OF s' st(2,3)]) (use b st(1) in simp_all)
      note e = add_atom_slot_effect[OF s]
      from e st(1) have fr: "streams st' = ?S" by simp
      from e have idx: "atoms_from_domain st' =
         (if slot_compatible h (domain (?S ! i') ! j)
          then (atoms_from_domain st)((i', j) := atoms_from_domain st (i', j) @ [h])
          else atoms_from_domain st)" by simp
      have mono: "set (atoms_from_domain st (a, b)) \<subseteq> set (atoms_from_domain st' (a, b))" for a b
        unfolding idx by auto
      have c': "?C i' (Suc j) st'"
      proof (intro allI, rule impI)
        fix i'' j'' h'
        assume h: "i'' < length ?S \<and> j'' < length (domain (?S ! i'')) \<and>
          slot_compatible h' (domain (?S ! i'') ! j'') \<and>
          (h' \<in> H0 \<or> (h' = h \<and> (i'' < i' \<or> (i'' = i' \<and> j'' < Suc j))))"
        show "h' \<in> set (atoms_from_domain st' (i'', j''))"
        proof (cases "h' = h \<and> i'' = i' \<and> j'' = j")
          case True
          with h have "slot_compatible h (domain (?S ! i') ! j)" by simp
          with True show ?thesis unfolding idx by simp
        next
          case False
          with h have "i'' < length ?S \<and> j'' < length (domain (?S ! i'')) \<and>
            slot_compatible h' (domain (?S ! i'') ! j'') \<and>
            (h' \<in> H0 \<or> (h' = h \<and> (i'' < i' \<or> (i'' = i' \<and> j'' < j))))"
            by auto
          with c have "h' \<in> set (atoms_from_domain st (i'', j''))" by blast
          with mono show ?thesis by blast
        qed
      qed
      from x fr c' have "?P i' (Suc j) st'" by blast
      with Inr show ?thesis by simp
    qed
  next
    fix st i'
    assume b: "i' < 0 + length ?S" and p: "?P i' (length (domain (?S ! (i' - 0)))) st"
    from p have st: "streams st = ?S" "instances_exact st" "combos_checked st"
      and c: "?C i' (length (domain (?S ! i'))) st"
      by simp_all
    have "?C (Suc i') 0 st"
    proof (intro allI, rule impI)
      fix i'' j'' h'
      assume h: "i'' < length ?S \<and> j'' < length (domain (?S ! i'')) \<and>
          slot_compatible h' (domain (?S ! i'') ! j'') \<and>
          (h' \<in> H0 \<or> (h' = h \<and> (i'' < Suc i' \<or> (i'' = Suc i' \<and> j'' < 0))))"
      then have "i'' < length ?S \<and> j'' < length (domain (?S ! i'')) \<and>
          slot_compatible h' (domain (?S ! i'') ! j'') \<and>
          (h' \<in> H0 \<or> (h' = h \<and> (i'' < i' \<or> (i'' = i' \<and> j'' < length (domain (?S ! i'))))))"
        by (cases "i'' = i'") auto
      with c show "h' \<in> set (atoms_from_domain st (i'', j''))" by blast
    qed
    with st show "?P (Suc i') 0 st" by blast
  qed
  then have fin: "?P (0 + length ?S) 0 self'" unfolding sum.case .
  then have 1: "instances_exact self'" "combos_checked self'" by simp_all
  have c: "?C (0 + length ?S) 0 self'"
    by (rule conjunct2[OF conjunct2[OF conjunct2[OF fin]]])
  have 2: "\<forall>i j h'. i < length ?S \<and> j < length (domain (?S ! i)) \<and>
        h' \<in> insert h H0 \<and> slot_compatible h' (domain (?S ! i) ! j)
        \<longrightarrow> h' \<in> set (atoms_from_domain self' (i, j))"
  proof (intro allI, rule impI)
    fix i j h'
    assume h: "i < length ?S \<and> j < length (domain (?S ! i)) \<and>
        h' \<in> insert h H0 \<and> slot_compatible h' (domain (?S ! i) ! j)"
    then have "i < length ?S \<and> j < length (domain (?S ! i)) \<and>
      slot_compatible h' (domain (?S ! i) ! j) \<and>
      (h' \<in> H0 \<or> (h' = h \<and> (i < 0 + length ?S \<or> (i = 0 + length ?S \<and> j < 0))))" by auto
    with c show "h' \<in> set (atoms_from_domain self' (i, j))" by blast
  qed
  from 1 2 show ?thesis by blast
qed

lemma add_atom_streams_succeeds:
  assumes run: "add_atom_streams self h 0 (streams self) = (self', r)"
    and inv: "engine_inv self" "h \<in> atoms self"
    and ne: "no_errors (streams self) (atoms self)"
  shows "\<exists>u. r = Inr u"
proof -
  let ?S = "streams self"
  let ?H = "atoms self"
  let ?P = "\<lambda>(i::nat) (j::nat) st. engine_inv st \<and> streams st = ?S \<and> atoms st = ?H"
  have "case r of Inr _ \<Rightarrow> ?P (0 + length ?S) 0 self' | Inl e \<Rightarrow> False"
  proof (rule add_atom_streams_rule[OF run, where P = ?P and E = "\<lambda>_. False"])
    show "?P 0 0 self" using inv(1) by simp
  next
    fix st i' j st' r'
    assume b: "i' < 0 + length ?S" "j < length (domain (?S ! (i' - 0)))"
      and p: "?P i' j st"
      and s: "add_atom_slot st h i' (?S ! (i' - 0)) j (domain (?S ! (i' - 0)) ! j) = (st', r')"
    let ?s = "?S ! i'"
    let ?df = "domain ?s ! j"
    from b have bi: "i' < length ?S" "j < length (domain ?s)" by simp_all
    from p have st: "engine_inv st" "streams st = ?S" "atoms st = ?H" by simp_all
    from s st(2) have s': "add_atom_slot st h i' (streams st ! i') j (domain (streams st ! i') ! j) = (st', r')"
      by simp
    have inv': "engine_inv st'"
      by (rule add_atom_slot_engine_inv[OF s' st(1)]) (use bi st inv(2) in simp_all)
    note e = add_atom_slot_effect[OF s']
    from e st have fr: "streams st' = ?S" "atoms st' = ?H" by simp_all
    from bi have mem: "?s \<in> set ?S" "?df \<in> set (domain ?s)" "domain ?s \<noteq> []" by auto
    from ne inv(2) have "arity_ok ?S h" unfolding no_errors_def by blast
    with mem have a: "function_name h = get_prefix ?df \<longrightarrow> length (args h) = length (get_args ?df)"
      unfolding arity_ok_def by blast
    have v: "vals_checked (atoms_from_domain st') h i' ?s j" if compat: "slot_compatible h ?df"
      unfolding vals_checked_def
    proof
      fix c assume c: "c \<in> set (product_lists (slot_vals (atoms_from_domain st') h i' j (length (domain ?s))))"
      from inv' have is': "index_sound st'" unfolding engine_inv_def by simp
      have "set (product_lists (slot_vals (atoms_from_domain st') h i' j (length (domain (streams st' ! i')))))
           \<subseteq> slot_combos (atoms st') (streams st' ! i')"
        by (rule slot_vals_slot_combos[OF is']) (use fr bi inv(2) compat in simp_all)
      with c fr have "c \<in> slot_combos ?H ?s" by auto
      with ne mem show "\<exists>x. combo_instance ?s c = Inr x" unfolding no_errors_def by blast
    qed
    from e st(2) have "r' = Inr () \<longleftrightarrow>
        (function_name h = get_prefix ?df \<longrightarrow> length (args h) = length (get_args ?df)) \<and>
        (slot_compatible h ?df \<longrightarrow> vals_checked (atoms_from_domain st') h i' ?s j)"
      by simp
    with a v have "r' = Inr ()" by blast
    with inv' fr show "case r' of Inr _ \<Rightarrow> ?P i' (Suc j) st' | Inl e \<Rightarrow> False" by simp
  qed simp
  then show ?thesis by (cases r) simp_all
qed

lemma exact_inv_atoms_upd:
  "instances_exact (self\<lparr>atoms := H\<rparr>) = instances_exact self"
  "combos_checked (self\<lparr>atoms := H\<rparr>) = combos_checked self"
  by (rule instances_exact_cong, simp_all) (rule combos_checked_cong, simp_all)

lemma add_atom_exact:
  assumes run: "add_atom self a = (self', r)"
    and inv: "exact_inv self"
    and new: "is_atom a" "head a \<notin> atoms self"
  shows "((\<exists>b. r = Inr b) \<longleftrightarrow> no_errors (streams self) (insert (head a) (atoms self))) \<and>
         ((\<exists>b. r = Inr b) \<longrightarrow> exact_inv self' \<and> atoms self' = insert (head a) (atoms self))"
proof -
  let ?S = "streams self"
  let ?h = "head a"
  let ?H = "insert ?h (atoms self)"
  let ?self1 = "self\<lparr>atoms := ?H\<rparr>"
  from inv have i0: "engine_inv self" "index_complete self" "instances_exact self" "combos_checked self"
    "\<forall>h \<in> atoms self. arity_ok ?S h"
    unfolding exact_inv_def by simp_all
  from add_atom_new[OF new run] obtain r' where
    r': "add_atom_streams ?self1 ?h 0 ?S = (self', r')"
      "r = (case r' of Inl e \<Rightarrow> Inl e | Inr _ \<Rightarrow> Inr True)" by blast
  from r'(1) have run1: "add_atom_streams ?self1 ?h 0 (streams ?self1) = (self', r')" by simp
  have inv1: "engine_inv ?self1" by (rule engine_inv_atoms_mono[OF i0(1)])
  note f = add_atom_frame[OF run]
  from f new have fr: "streams self' = ?S" "atoms self' = ?H" by simp_all
  have fwd: "exact_inv self' \<and> atoms self' = ?H" if ok: "\<exists>b. r = Inr b"
  proof -
    from ok r'(2) obtain u where u: "r' = Inr u" by (cases r') auto
    with r'(2) have rT: "r = Inr True" by simp
    have e1: "engine_inv self'" by (rule add_atom_engine_inv[OF run i0(1)])
    have co: "\<forall>i j h'. i < length (streams ?self1) \<and> j < length (domain (streams ?self1 ! i)) \<and>
        h' \<in> atoms self \<and> slot_compatible h' (domain (streams ?self1 ! i) ! j)
        \<longrightarrow> h' \<in> set (atoms_from_domain ?self1 (i, j))"
      using i0(2) unfolding index_complete_def by simp
    from run1 u have run2: "add_atom_streams ?self1 ?h 0 (streams ?self1) = (self', Inr u)" by simp
    have x: "instances_exact ?self1" "combos_checked ?self1"
      using i0(3,4) by (simp_all add: exact_inv_atoms_upd)
    note ex = add_atom_streams_exact[OF run2 x co]
    from ex have e2: "instances_exact self'" "combos_checked self'" by simp_all
    from ex have e3: "index_complete self'"
      unfolding index_complete_def fr by simp
    from run rT have "add_atom self a = (self', Inr True)" by simp
    from add_atom_arity[OF this] i0(5) have e4: "\<forall>h \<in> atoms self'. arity_ok (streams self') h"
      unfolding fr by simp
    from e1 e2 e3 e4 fr(2) show ?thesis unfolding exact_inv_def by simp
  qed
  have bwd: "\<exists>b. r = Inr b" if ne: "no_errors ?S ?H"
  proof -
    have "\<exists>u. r' = Inr u"
      by (rule add_atom_streams_succeeds[OF run1 inv1]) (use ne in simp_all)
    with r'(2) show ?thesis by auto
  qed
  have "no_errors ?S ?H" if ok: "\<exists>b. r = Inr b"
    using exact_inv_no_errors[of self'] fwd[OF ok] fr by simp
  with fwd bwd show ?thesis by blast
qed

lemma heads_of_Cons:
  "heads_of (a # xs) = (if is_atom a then {head a} else {}) \<union> heads_of xs"
  unfolding heads_of_def by auto

lemma heads_of_set: "set xs = set ys \<Longrightarrow> heads_of xs = heads_of ys"
  unfolding heads_of_def by simp

lemma add_atoms_exact:
  assumes "exact_inv self" "add_atoms self xs = (self', r)"
  shows "(r = Inr () \<longleftrightarrow> no_errors (streams self) (atoms self \<union> heads_of xs)) \<and>
         (r = Inr () \<longrightarrow> exact_inv self' \<and> atoms self' = atoms self \<union> heads_of xs \<and>
            streams self' = streams self)"
  using assms
proof (induction xs arbitrary: self)
  case Nil
  then have "self' = self" "r = Inr ()" by simp_all
  with Nil.prems(1) exact_inv_no_errors[of self] show ?case
    by (simp add: heads_of_def)
next
  case (Cons a xs)
  let ?S = "streams self"
  obtain st1 r1 where s1: "add_atom self a = (st1, r1)" by (cases "add_atom self a")
  show ?case
  proof (cases "\<not> is_atom a \<or> head a \<in> atoms self")
    case True
    from add_atom_noop[OF True] s1 have "st1 = self" "r1 = Inr False" by simp_all
    with s1 Cons.prems(2) have run: "add_atoms self xs = (self', r)" by simp
    from True have "atoms self \<union> heads_of (a # xs) = atoms self \<union> heads_of xs"
      unfolding heads_of_Cons by auto
    with Cons.IH[OF Cons.prems(1) run] show ?thesis by simp
  next
    case False
    then have new: "is_atom a" "head a \<notin> atoms self" by simp_all
    note x = add_atom_exact[OF s1 Cons.prems(1) new]
    have hs: "atoms self \<union> heads_of (a # xs) = insert (head a) (atoms self) \<union> heads_of xs"
      unfolding heads_of_Cons using new(1) by auto
    show ?thesis
    proof (cases r1)
      case (Inl e)
      with s1 Cons.prems(2) have res: "self' = st1" "r = Inl e" by simp_all
      from x Inl have "\<not> no_errors ?S (insert (head a) (atoms self))" by simp
      then have "\<not> no_errors ?S (atoms self \<union> heads_of (a # xs))"
        unfolding hs using no_errors_mono[of ?S "insert (head a) (atoms self) \<union> heads_of xs"
            "insert (head a) (atoms self)"] by blast
      with res show ?thesis by simp
    next
      case (Inr b)
      with s1 Cons.prems(2) have run: "add_atoms st1 xs = (self', r)" by simp
      from x Inr have i1: "exact_inv st1" "atoms st1 = insert (head a) (atoms self)" by simp_all
      from add_atom_frame[OF s1] have f1: "streams st1 = ?S" by simp
      from Cons.IH[OF i1(1) run] show ?thesis unfolding hs i1(2) f1 by simp
    qed
  qed
qed

lemma initial_exact_inv: "exact_inv (add_zero_input (empty_instantiator S) S)"
proof -
  let ?st = "add_zero_input (empty_instantiator S) S"
  have emp: "idx_combos ?st i = {}" if "domain (S ! i) \<noteq> []" for i
  proof -
    have "c \<notin> idx_combos ?st i" for c
    proof
      assume "c \<in> idx_combos ?st i"
      then have "\<forall>k < length (domain (S ! i)). c ! k \<in> set (atoms_from_domain ?st (i, k))"
        unfolding idx_combos_iff by (simp add: initial_state)
      moreover from that have "0 < length (domain (S ! i))" by simp
      ultimately have "c ! 0 \<in> set (atoms_from_domain ?st (i, 0))" by blast
      then show False by (simp add: initial_state)
    qed
    then show ?thesis by blast
  qed
  have "idx_instances ?st = {}"
    unfolding idx_instances_def using emp by (auto simp: initial_state)
  then have 1: "instances_exact ?st"
    unfolding instances_exact_def by (simp add: initial_state)
  have 2: "combos_checked ?st"
    unfolding combos_checked_def using emp by (auto simp: initial_state)
  have 3: "index_complete ?st"
    unfolding index_complete_def by (simp add: initial_state)
  from 1 2 3 initial_engine_inv[of S] show ?thesis
    unfolding exact_inv_def by (simp add: initial_state)
qed

lemma exact_inv_index_sets:
  assumes "exact_inv self"
  shows "set (atoms_from_domain self (i, j)) =
     {h \<in> atoms self. i < length (streams self) \<and> j < length (domain (streams self ! i)) \<and>
        slot_compatible h (domain (streams self ! i) ! j)}"
proof -
  from assms have "index_sound self" "index_complete self"
    unfolding exact_inv_def engine_inv_def by simp_all
  then show ?thesis unfolding index_sound_def index_complete_def by blast
qed

section \<open>The claims\<close>

text \<open>
  C1, as stated, fails when a call raises. With the streams \<open>bad\<close> (inputs
  \<open>[?z]\<close>, domain \<open>[P(?x), Q(?y)]\<close>, so that its first unified tuple raises
  \<open>KeyError\<close>) and \<open>good\<close> (inputs \<open>[?x]\<close>, domain \<open>[P(?x)]\<close>) and the
  facts \<open>P(a)\<close> and \<open>Q(b)\<close>, one \<open>add_atom\<close> call per fact: in the order
  \<open>P(a), Q(b)\<close> the instance \<open>good(a)\<close> is enqueued before the second call
  raises; in the order \<open>Q(b), P(a)\<close> the second call raises at \<open>bad\<close> before
  \<open>good\<close> is reached, and the instance set stays empty.
\<close>

theorem submission_order_counterexample:
  "stream_instances (add_atoms_catching (add_zero_input (empty_instantiator
        [\<lparr>name = ''bad'', inputs = [''?z''],
          domain = [Fact ''P'' [Param ''?x''], Fact ''Q'' [Param ''?y'']]\<rparr>,
         \<lparr>name = ''good'', inputs = [''?x''], domain = [Fact ''P'' [Param ''?x'']]\<rparr>])
        [\<lparr>name = ''bad'', inputs = [''?z''],
          domain = [Fact ''P'' [Param ''?x''], Fact ''Q'' [Param ''?y'']]\<rparr>,
         \<lparr>name = ''good'', inputs = [''?x''], domain = [Fact ''P'' [Param ''?x'']]\<rparr>])
      [Atom (Head ''P'' [Object ''a'']), Atom (Head ''Q'' [Object ''b''])]) =
     {(\<lparr>name = ''good'', inputs = [''?x''], domain = [Fact ''P'' [Param ''?x'']]\<rparr>, [Object ''a''])} \<and>
   stream_instances (add_atoms_catching (add_zero_input (empty_instantiator
        [\<lparr>name = ''bad'', inputs = [''?z''],
          domain = [Fact ''P'' [Param ''?x''], Fact ''Q'' [Param ''?y'']]\<rparr>,
         \<lparr>name = ''good'', inputs = [''?x''], domain = [Fact ''P'' [Param ''?x'']]\<rparr>])
        [\<lparr>name = ''bad'', inputs = [''?z''],
          domain = [Fact ''P'' [Param ''?x''], Fact ''Q'' [Param ''?y'']]\<rparr>,
         \<lparr>name = ''good'', inputs = [''?x''], domain = [Fact ''P'' [Param ''?x'']]\<rparr>])
      [Atom (Head ''Q'' [Object ''b'']), Atom (Head ''P'' [Object ''a''])]) = {} \<and>
   stream_instances (fst (add_atoms (add_zero_input (empty_instantiator
        [\<lparr>name = ''bad'', inputs = [''?z''],
          domain = [Fact ''P'' [Param ''?x''], Fact ''Q'' [Param ''?y'']]\<rparr>,
         \<lparr>name = ''good'', inputs = [''?x''], domain = [Fact ''P'' [Param ''?x'']]\<rparr>])
        [\<lparr>name = ''bad'', inputs = [''?z''],
          domain = [Fact ''P'' [Param ''?x''], Fact ''Q'' [Param ''?y'']]\<rparr>,
         \<lparr>name = ''good'', inputs = [''?x''], domain = [Fact ''P'' [Param ''?x'']]\<rparr>])
      [Atom (Head ''P'' [Object ''a'']), Atom (Head ''Q'' [Object ''b''])])) =
     {(\<lparr>name = ''good'', inputs = [''?x''], domain = [Fact ''P'' [Param ''?x'']]\<rparr>, [Object ''a''])} \<and>
   add_atoms (add_zero_input (empty_instantiator
        [\<lparr>name = ''bad'', inputs = [''?z''],
          domain = [Fact ''P'' [Param ''?x''], Fact ''Q'' [Param ''?y'']]\<rparr>,
         \<lparr>name = ''good'', inputs = [''?x''], domain = [Fact ''P'' [Param ''?x'']]\<rparr>])
        [\<lparr>name = ''bad'', inputs = [''?z''],
          domain = [Fact ''P'' [Param ''?x''], Fact ''Q'' [Param ''?y'']]\<rparr>,
         \<lparr>name = ''good'', inputs = [''?x''], domain = [Fact ''P'' [Param ''?x'']]\<rparr>])
      [Atom (Head ''Q'' [Object ''b'']), Atom (Head ''P'' [Object ''a''])] =
     (\<lparr>streams =
        [\<lparr>name = ''bad'', inputs = [''?z''],
          domain = [Fact ''P'' [Param ''?x''], Fact ''Q'' [Param ''?y'']]\<rparr>,
         \<lparr>name = ''good'', inputs = [''?x''], domain = [Fact ''P'' [Param ''?x'']]\<rparr>],
       stream_instances = {}, stream_queue = [],
       atoms = {Head ''P'' [Object ''a''], Head ''Q'' [Object ''b'']},
       atoms_from_domain = (\<lambda>_. [])((0, 1) := [Head ''Q'' [Object ''b'']],
                                        (0, 0) := [Head ''P'' [Object ''a'']])\<rparr>,
      Inl KeyError)"
  by (simp add: engine_eval insert_commute)

text \<open>
  C1, amended: for a fixed list of stream declarations and two lists of atoms with the
  same set of elements, submitted to a fresh engine one \<open>add_atom\<close> call per atom:
  if the calls of one order all return without an exception, so do the calls of the
  other order, and both orders end with the same instance set, which is the set of the
  enqueued instances, with the same known heads and with index lists that hold the
  same heads; only the order of the queue (and of the index lists) may differ.
\<close>

theorem submission_order_independent:
  assumes "Instantiator [] S = Inr self0"
    and "add_atoms self0 xs = (self1, Inr ())"
    and "set xs = set ys"
  shows "\<exists>self2. add_atoms self0 ys = (self2, Inr ()) \<and>
           stream_instances self2 = stream_instances self1 \<and>
           set (stream_queue self1) = stream_instances self1 \<and>
           set (stream_queue self2) = stream_instances self2 \<and>
           atoms self2 = atoms self1 \<and>
           (\<forall>i j. set (atoms_from_domain self2 (i, j)) = set (atoms_from_domain self1 (i, j)))"
proof -
  from assms(1) have s0: "self0 = add_zero_input (empty_instantiator S) S"
    by (simp add: Instantiator_Inr)
  have i0: "exact_inv self0" unfolding s0 by (rule initial_exact_inv)
  have st0: "streams self0 = S" unfolding s0 by (simp add: initial_state)
  obtain self2 r2 where run2: "add_atoms self0 ys = (self2, r2)" by (cases "add_atoms self0 ys")
  note x1 = add_atoms_exact[OF i0 assms(2)]
  note x2 = add_atoms_exact[OF i0 run2]
  have hs: "heads_of xs = heads_of ys" by (rule heads_of_set[OF assms(3)])
  from x1 have "no_errors (streams self0) (atoms self0 \<union> heads_of xs)" by simp
  with x2 hs have r2: "r2 = Inr ()" by simp
  from x1 have e1: "exact_inv self1" "atoms self1 = atoms self0 \<union> heads_of xs" "streams self1 = S"
    using st0 by simp_all
  from x2 r2 have e2: "exact_inv self2" "atoms self2 = atoms self0 \<union> heads_of ys" "streams self2 = S"
    using st0 by simp_all
  from e1(2) e2(2) hs have at: "atoms self2 = atoms self1" by simp
  have ins: "stream_instances self2 = stream_instances self1"
    unfolding exact_inv_instances[OF e1(1)] exact_inv_instances[OF e2(1)] e1(3) e2(3) at ..
  have q1: "set (stream_queue self1) = stream_instances self1"
    using e1(1) unfolding exact_inv_def engine_inv_def queue_ok_def by simp
  have q2: "set (stream_queue self2) = stream_instances self2"
    using e2(1) unfolding exact_inv_def engine_inv_def queue_ok_def by simp
  have ix: "\<forall>i j. set (atoms_from_domain self2 (i, j)) = set (atoms_from_domain self1 (i, j))"
    unfolding exact_inv_index_sets[OF e1(1)] exact_inv_index_sets[OF e2(1)] e1(3) e2(3) at by simp
  from run2 r2 ins q1 q2 at ix show ?thesis by blast
qed

theorem submission_order_independent_witness:
  "stream_instances (fst (add_atoms (add_zero_input (empty_instantiator
        [\<lparr>name = ''s2'', inputs = [''?x'', ''?y''],
          domain = [Fact ''Obj'' [Param ''?x''], Fact ''Obj'' [Param ''?y'']]\<rparr>])
        [\<lparr>name = ''s2'', inputs = [''?x'', ''?y''],
          domain = [Fact ''Obj'' [Param ''?x''], Fact ''Obj'' [Param ''?y'']]\<rparr>])
      [Atom (Head ''Obj'' [Object ''b'']), Atom (Head ''Obj'' [Object ''a''])])) =
   stream_instances (fst (add_atoms (add_zero_input (empty_instantiator
        [\<lparr>name = ''s2'', inputs = [''?x'', ''?y''],
          domain = [Fact ''Obj'' [Param ''?x''], Fact ''Obj'' [Param ''?y'']]\<rparr>])
        [\<lparr>name = ''s2'', inputs = [''?x'', ''?y''],
          domain = [Fact ''Obj'' [Param ''?x''], Fact ''Obj'' [Param ''?y'']]\<rparr>])
      [Atom (Head ''Obj'' [Object ''a'']), Atom (Head ''Obj'' [Object ''b''])])) \<and>
   map snd (stream_queue (fst (add_atoms (add_zero_input (empty_instantiator
        [\<lparr>name = ''s2'', inputs = [''?x'', ''?y''],
          domain = [Fact ''Obj'' [Param ''?x''], Fact ''Obj'' [Param ''?y'']]\<rparr>])
        [\<lparr>name = ''s2'', inputs = [''?x'', ''?y''],
          domain = [Fact ''Obj'' [Param ''?x''], Fact ''Obj'' [Param ''?y'']]\<rparr>])
      [Atom (Head ''Obj'' [Object ''a'']), Atom (Head ''Obj'' [Object ''b''])]))) =
     [[Object ''a'', Object ''a''], [Object ''b'', Object ''a''],
      [Object ''a'', Object ''b''], [Object ''b'', Object ''b'']] \<and>
   map snd (stream_queue (fst (add_atoms (add_zero_input (empty_instantiator
        [\<lparr>name = ''s2'', inputs = [''?x'', ''?y''],
          domain = [Fact ''Obj'' [Param ''?x''], Fact ''Obj'' [Param ''?y'']]\<rparr>])
        [\<lparr>name = ''s2'', inputs = [''?x'', ''?y''],
          domain = [Fact ''Obj'' [Param ''?x''], Fact ''Obj'' [Param ''?y'']]\<rparr>])
      [Atom (Head ''Obj'' [Object ''b'']), Atom (Head ''Obj'' [Object ''a''])]))) =
     [[Object ''b'', Object ''b''], [Object ''a'', Object ''b''],
      [Object ''b'', Object ''a''], [Object ''a'', Object ''a'']]"
proof -
  let ?s = "\<lparr>name = ''s2'', inputs = [''?x'', ''?y''],
          domain = [Fact ''Obj'' [Param ''?x''], Fact ''Obj'' [Param ''?y'']]\<rparr>"
  let ?st = "add_zero_input (empty_instantiator [?s]) [?s]"
  let ?xs = "[Atom (Head ''Obj'' [Object ''a'']), Atom (Head ''Obj'' [Object ''b''])]"
  let ?ys = "[Atom (Head ''Obj'' [Object ''b'']), Atom (Head ''Obj'' [Object ''a''])]"
  have a: "Instantiator [] [?s] = Inr ?st" by (simp add: Instantiator_def)
  have e1: "snd (add_atoms ?st ?xs) = Inr () \<and>
      map snd (stream_queue (fst (add_atoms ?st ?xs))) =
        [[Object ''a'', Object ''a''], [Object ''b'', Object ''a''],
         [Object ''a'', Object ''b''], [Object ''b'', Object ''b'']]"
    by (simp add: engine_eval)
  have e2: "map snd (stream_queue (fst (add_atoms ?st ?ys))) =
        [[Object ''b'', Object ''b''], [Object ''a'', Object ''b''],
         [Object ''b'', Object ''a''], [Object ''a'', Object ''a'']]"
    by (simp add: engine_eval)
  from e1 have b: "add_atoms ?st ?xs = (fst (add_atoms ?st ?xs), Inr ())"
    by (simp add: prod_eq_iff)
  have c: "set ?xs = set ?ys" by auto
  from submission_order_independent[OF a b c] obtain self2 where
    s2: "add_atoms ?st ?ys = (self2, Inr ())"
      "stream_instances self2 = stream_instances (fst (add_atoms ?st ?xs))" by blast
  from s2(1) have "self2 = fst (add_atoms ?st ?ys)" by simp
  with s2(2) e1 e2 show ?thesis by simp
qed

text \<open>
  C2, as stated, fails for the return value of the first call: a ground atom with a
  new head need not make \<open>add_atom\<close> return true. With a stream of inputs
  \<open>[?z]\<close> and domain \<open>[Obj(?x)]\<close>, the first submission of \<open>Obj(a)\<close> to the fresh
  engine raises \<open>KeyError\<close> at \<open>mapping[p]\<close>.
\<close>

theorem add_atom_first_call_counterexample:
  "is_atom (Atom (Head ''Obj'' [Object ''a''])) \<and>
   Head ''Obj'' [Object ''a''] \<notin> atoms (add_zero_input (empty_instantiator
        [\<lparr>name = ''sk'', inputs = [''?z''], domain = [Fact ''Obj'' [Param ''?x'']]\<rparr>])
        [\<lparr>name = ''sk'', inputs = [''?z''], domain = [Fact ''Obj'' [Param ''?x'']]\<rparr>]) \<and>
   snd (add_atom (add_zero_input (empty_instantiator
        [\<lparr>name = ''sk'', inputs = [''?z''], domain = [Fact ''Obj'' [Param ''?x'']]\<rparr>])
        [\<lparr>name = ''sk'', inputs = [''?z''], domain = [Fact ''Obj'' [Param ''?x'']]\<rparr>])
      (Atom (Head ''Obj'' [Object ''a'']))) = Inl KeyError"
  by (simp add: engine_eval)

text \<open>
  C2, amended: once \<open>add_atom\<close> has been called on an atom, whether that call
  returned or raised, calling it again on the same atom, at once or after any further
  sequence of \<open>add_atom\<close> calls, returns false and leaves the whole state (known
  heads, every index list, instance set, queue) as it was before that call. The first
  call returns false exactly when the input is not an atom or its head is already
  known; on an atom with a new head it records the head and, unless it raises, returns
  true; and it returns true only if no declared domain fact has the head's predicate
  with another arity.
\<close>

theorem add_atom_resubmission:
  assumes "add_atom self a = (self1, r1)" and "add_atoms self1 ys = (self2, r2)"
  shows "add_atom self1 a = (self1, Inr False) \<and>
         add_atom self2 a = (self2, Inr False) \<and>
         add_atom (add_atoms_catching self1 zs) a = (add_atoms_catching self1 zs, Inr False) \<and>
         (r1 = Inr False \<longleftrightarrow> \<not> is_atom a \<or> head a \<in> atoms self) \<and>
         (is_atom a \<and> head a \<notin> atoms self \<longrightarrow> atoms self1 = insert (head a) (atoms self)) \<and>
         (is_atom a \<and> head a \<notin> atoms self \<and> (\<forall>e. r1 \<noteq> Inl e) \<longrightarrow> r1 = Inr True) \<and>
         (r1 = Inr True \<longrightarrow> arity_ok (streams self) (head a))"
proof -
  note f = add_atom_frame[OF assms(1)]
  from f have k1: "\<not> is_atom a \<or> head a \<in> atoms self1" by (auto split: if_splits)
  then have 1: "add_atom self1 a = (self1, Inr False)" by (rule add_atom_noop)
  from add_atoms_frame[OF assms(2)] k1 have "\<not> is_atom a \<or> head a \<in> atoms self2" by blast
  then have 2: "add_atom self2 a = (self2, Inr False)" by (rule add_atom_noop)
  from add_atoms_catching_atoms[of self1 zs] k1
  have "\<not> is_atom a \<or> head a \<in> atoms (add_atoms_catching self1 zs)" by blast
  then have 7: "add_atom (add_atoms_catching self1 zs) a = (add_atoms_catching self1 zs, Inr False)"
    by (rule add_atom_noop)
  from f have 3: "r1 = Inr False \<longleftrightarrow> \<not> is_atom a \<or> head a \<in> atoms self" by simp
  from f have 4: "is_atom a \<and> head a \<notin> atoms self \<longrightarrow> atoms self1 = insert (head a) (atoms self)"
    by simp
  have 5: "is_atom a \<and> head a \<notin> atoms self \<and> (\<forall>e. r1 \<noteq> Inl e) \<longrightarrow> r1 = Inr True"
  proof
    assume h: "is_atom a \<and> head a \<notin> atoms self \<and> (\<forall>e. r1 \<noteq> Inl e)"
    with 3 have "r1 \<noteq> Inr False" by simp
    with h show "r1 = Inr True" by (cases r1) auto
  qed
  have 6: "r1 = Inr True \<longrightarrow> arity_ok (streams self) (head a)"
    using add_atom_arity assms(1) by blast
  from 1 2 7 3 4 5 6 show ?thesis by (intro conjI)
qed

theorem add_atom_resubmission_witness:
  "snd (add_atom (add_zero_input (empty_instantiator
        [\<lparr>name = ''s1'', inputs = [''?x''], domain = [Fact ''Obj'' [Param ''?x'']]\<rparr>])
        [\<lparr>name = ''s1'', inputs = [''?x''], domain = [Fact ''Obj'' [Param ''?x'']]\<rparr>])
      (Atom (Head ''Obj'' [Object ''block1'']))) = Inr True \<and>
   stream_queue (fst (add_atoms (fst (add_atom (add_zero_input (empty_instantiator
        [\<lparr>name = ''s1'', inputs = [''?x''], domain = [Fact ''Obj'' [Param ''?x'']]\<rparr>])
        [\<lparr>name = ''s1'', inputs = [''?x''], domain = [Fact ''Obj'' [Param ''?x'']]\<rparr>])
      (Atom (Head ''Obj'' [Object ''block1'']))))
      [Atom (Head ''Obj'' [Object ''block2''])])) =
   [(\<lparr>name = ''s1'', inputs = [''?x''], domain = [Fact ''Obj'' [Param ''?x'']]\<rparr>, [Object ''block1'']),
    (\<lparr>name = ''s1'', inputs = [''?x''], domain = [Fact ''Obj'' [Param ''?x'']]\<rparr>, [Object ''block2''])] \<and>
   add_atom (fst (add_atoms (fst (add_atom (add_zero_input (empty_instantiator
        [\<lparr>name = ''s1'', inputs = [''?x''], domain = [Fact ''Obj'' [Param ''?x'']]\<rparr>])
        [\<lparr>name = ''s1'', inputs = [''?x''], domain = [Fact ''Obj'' [Param ''?x'']]\<rparr>])
      (Atom (Head ''Obj'' [Object ''block1'']))))
      [Atom (Head ''Obj'' [Object ''block2''])]))
      (Atom (Head ''Obj'' [Object ''block1''])) =
   (fst (add_atoms (fst (add_atom (add_zero_input (empty_instantiator
        [\<lparr>name = ''s1'', inputs = [''?x''], domain = [Fact ''Obj'' [Param ''?x'']]\<rparr>])
        [\<lparr>name = ''s1'', inputs = [''?x''], domain = [Fact ''Obj'' [Param ''?x'']]\<rparr>])
      (Atom (Head ''Obj'' [Object ''block1'']))))
      [Atom (Head ''Obj'' [Object ''block2''])]), Inr False)"
proof -
  let ?S = "\<lparr>name = ''s1'', inputs = [''?x''], domain = [Fact ''Obj'' [Param ''?x'']]\<rparr>"
  let ?st = "add_zero_input (empty_instantiator [?S]) [?S]"
  let ?A = "Atom (Head ''Obj'' [Object ''block1''])"
  let ?ys = "[Atom (Head ''Obj'' [Object ''block2''])]"
  let ?st1 = "fst (add_atom ?st ?A)"
  let ?st2 = "fst (add_atoms ?st1 ?ys)"
  have e: "snd (add_atom ?st ?A) = Inr True \<and>
           stream_queue ?st2 = [(?S, [Object ''block1'']), (?S, [Object ''block2''])]"
    by (simp add: engine_eval)
  have a: "add_atom ?st ?A = (?st1, snd (add_atom ?st ?A))" by simp
  have b: "add_atoms ?st1 ?ys = (?st2, snd (add_atoms ?st1 ?ys))" by simp
  from add_atom_resubmission[OF a b, of "[]"]
  have "add_atom ?st2 ?A = (?st2, Inr False)" by blast
  with e show ?thesis by blast
qed

text \<open>
  C3: for the stream with inputs \<open>[?x, ?y]\<close> and domain
  \<open>[Pred(?x), Pred2(?x, ?y)]\<close> and a fresh engine, submitting \<open>Pred(a)\<close> then
  \<open>Pred2(a, b)\<close> leaves exactly the instance for \<open>(a, b)\<close> in the queue, once; so
  does submitting them in the reverse order.
\<close>

theorem no_missed_combination:
  "(\<exists>self0 self1 self2.
      Instantiator []
        [\<lparr>name = n, inputs = [''?x'', ''?y''],
          domain = [Fact ''Pred'' [Param ''?x''], Fact ''Pred2'' [Param ''?x'', Param ''?y'']]\<rparr>] = Inr self0 \<and>
      stream_queue self0 = [] \<and>
      add_atom self0 (Atom (Head ''Pred'' [Object a])) = (self1, Inr True) \<and>
      stream_queue self1 = [] \<and>
      add_atom self1 (Atom (Head ''Pred2'' [Object a, Object b])) = (self2, Inr True) \<and>
      stream_queue self2 =
        [get_instance \<lparr>name = n, inputs = [''?x'', ''?y''],
          domain = [Fact ''Pred'' [Param ''?x''], Fact ''Pred2'' [Param ''?x'', Param ''?y'']]\<rparr>
          [Object a, Object b]]) \<and>
   (\<exists>self0 self1 self2.
      Instantiator []
        [\<lparr>name = n, inputs = [''?x'', ''?y''],
          domain = [Fact ''Pred'' [Param ''?x''], Fact ''Pred2'' [Param ''?x'', Param ''?y'']]\<rparr>] = Inr self0 \<and>
      add_atom self0 (Atom (Head ''Pred2'' [Object a, Object b])) = (self1, Inr True) \<and>
      stream_queue self1 = [] \<and>
      add_atom self1 (Atom (Head ''Pred'' [Object a])) = (self2, Inr True) \<and>
      stream_queue self2 =
        [get_instance \<lparr>name = n, inputs = [''?x'', ''?y''],
          domain = [Fact ''Pred'' [Param ''?x''], Fact ''Pred2'' [Param ''?x'', Param ''?y'']]\<rparr>
          [Object a, Object b]])"
  by (simp add: Instantiator_def engine_eval)

text \<open>
  C4, as stated, asks a literal Object constant on the domain side to be compared with
  the candidate's argument. It is not: the domain \<open>[On(?x, table1)]\<close> unifies with
  the candidate \<open>[On(a, table2)]\<close>, and the mapping binds \<open>table1\<close> to
  \<open>table2\<close>.
\<close>

theorem get_mapping_constant_counterexample:
  "get_mapping [Head ''On'' [Param ''?x'', Object ''table1'']]
               [Head ''On'' [Object ''a'', Object ''table2'']] =
   Inr (Some [Param ''?x'' \<mapsto> Object ''a'', Object ''table1'' \<mapsto> Object ''table2''])"
  by (simp add: get_mapping_def safe_zip_def)

text \<open>
  C4, amended: for two equal-length sequences whose atoms match position by position
  (same predicate and arity), \<open>get_mapping\<close> raises nothing; it fails exactly when
  two positions hold the same domain-side argument, parameter symbol or literal
  constant alike, and different candidate arguments; when it succeeds the mapping binds
  the domain-side argument of every position to the candidate's argument there, and
  binds nothing else.
\<close>

theorem get_mapping_binds_positions:
  assumes "matched atoms1 atoms2"
  shows "(get_mapping atoms1 atoms2 = Inr None \<longleftrightarrow> binding_conflict atoms1 atoms2) \<and>
         (\<forall>m. get_mapping atoms1 atoms2 = Inr (Some m) \<longrightarrow>
            (\<forall>i p. i < length atoms1 \<and> p < length (args (atoms1 ! i)) \<longrightarrow>
                 m (args (atoms1 ! i) ! p) = Some (args (atoms2 ! i) ! p)) \<and>
            dom m = (\<Union>a \<in> set atoms1. set (args a))) \<and>
         (\<forall>e. get_mapping atoms1 atoms2 \<noteq> Inl e)"
    (is "?fails \<and> ?binds \<and> ?total")
proof -
  have total: ?total
    using get_mapping_char[OF assms] by simp
  show ?thesis
  proof (cases "single_valued (set (arg_pairs atoms1 atoms2))")
    case True
    then have g: "get_mapping atoms1 atoms2 = Inr (Some (map_of (arg_pairs atoms1 atoms2)))"
      using get_mapping_char[OF assms] by simp
    have 1: ?fails
      using True single_valued_arg_pairs[OF assms] g by simp
    have b: "\<forall>i p. i < length atoms1 \<and> p < length (args (atoms1 ! i)) \<longrightarrow>
        map_of (arg_pairs atoms1 atoms2) (args (atoms1 ! i) ! p) = Some (args (atoms2 ! i) ! p)"
      using map_of_arg_pairs[OF assms True] by blast
    have 2: ?binds
    proof (intro allI impI)
      fix m assume "get_mapping atoms1 atoms2 = Inr (Some m)"
      with g have "m = map_of (arg_pairs atoms1 atoms2)" by simp
      with b dom_map_of_arg_pairs[OF assms]
      show "(\<forall>i p. i < length atoms1 \<and> p < length (args (atoms1 ! i)) \<longrightarrow>
                 m (args (atoms1 ! i) ! p) = Some (args (atoms2 ! i) ! p)) \<and>
            dom m = (\<Union>a \<in> set atoms1. set (args a))" by simp
    qed
    from 1 2 total show ?thesis by (intro conjI)
  next
    case False
    then have g: "get_mapping atoms1 atoms2 = Inr None"
      using get_mapping_char[OF assms] by simp
    have 1: ?fails
      using False single_valued_arg_pairs[OF assms] g by simp
    have 2: ?binds unfolding g by simp
    from 1 2 total show ?thesis by (intro conjI)
  qed
qed

theorem get_mapping_binds_positions_witness:
  "matched [Head ''On'' [Param ''?x'', Object ''table1'']] [Head ''On'' [Object ''a'', Object ''table2'']] \<and>
   get_mapping [Head ''On'' [Param ''?x'', Object ''table1'']] [Head ''On'' [Object ''a'', Object ''table2'']]
     \<noteq> Inr None \<and>
   \<not> binding_conflict [Head ''On'' [Param ''?x'', Object ''table1'']] [Head ''On'' [Object ''a'', Object ''table2'']]"
proof -
  let ?A = "[Head ''On'' [Param ''?x'', Object ''table1'']]"
  let ?B = "[Head ''On'' [Object ''a'', Object ''table2'']]"
  have m: "matched ?A ?B" by (simp add: matched_def)
  have g: "get_mapping ?A ?B \<noteq> Inr None" by (simp add: get_mapping_def safe_zip_def)
  from get_mapping_binds_positions[OF m] g have "\<not> binding_conflict ?A ?B" by blast
  with m g show ?thesis by blast
qed

text \<open>
  C5: in every state the engine reaches from its construction by \<open>add_atom\<close>
  calls (also a state left by a call that raised), every head recorded in the index
  list of a domain slot has the predicate and arity of the slot's fact and equals it
  at every position where the fact holds a literal Object constant; and every
  instance in the instance set (which is the set of the enqueued instances) is the
  instance of a stream without inputs or comes from a tuple of known heads each of
  which agrees with its slot at every literal constant.
\<close>

theorem constants_enforced:
  assumes "add_atoms (add_zero_input (empty_instantiator S) S) xs = (self, r)"
  shows "(\<forall>i j h. h \<in> set (atoms_from_domain self (i, j)) \<longrightarrow>
            i < length S \<and> j < length (domain (S ! i)) \<and>
            function_name h = get_prefix (domain (S ! i) ! j) \<and>
            length (args h) = length (get_args (domain (S ! i) ! j)) \<and>
            (\<forall>p < length (args h). is_Object (get_args (domain (S ! i) ! j) ! p) \<longrightarrow>
               args h ! p = get_args (domain (S ! i) ! j) ! p)) \<and>
         (\<forall>inst \<in> stream_instances self. inst \<in> zero_instances S \<or>
            (\<exists>s \<in> set S. \<exists>c. combo_instance s c = Inr (Some inst) \<and>
               length c = length (domain s) \<and>
               (\<forall>k < length (domain s). c ! k \<in> atoms self \<and>
                  function_name (c ! k) = get_prefix (domain s ! k) \<and>
                  (\<forall>p < length (args (c ! k)). is_Object (get_args (domain s ! k) ! p) \<longrightarrow>
                     args (c ! k) ! p = get_args (domain s ! k) ! p)))) \<and>
         set (stream_queue self) = stream_instances self"
proof -
  from reachable_engine_inv[OF assms] have inv: "index_sound self" "queue_ok self"
    "instances_sound self" and st: "streams self = S"
    unfolding engine_inv_def by simp_all
  have 1: "\<forall>i j h. h \<in> set (atoms_from_domain self (i, j)) \<longrightarrow>
            i < length S \<and> j < length (domain (S ! i)) \<and>
            function_name h = get_prefix (domain (S ! i) ! j) \<and>
            length (args h) = length (get_args (domain (S ! i) ! j)) \<and>
            (\<forall>p < length (args h). is_Object (get_args (domain (S ! i) ! j) ! p) \<longrightarrow>
               args h ! p = get_args (domain (S ! i) ! j) ! p)"
  proof (intro allI, rule impI)
    fix i j h assume "h \<in> set (atoms_from_domain self (i, j))"
    with inv(1) st have "i < length S" "j < length (domain (S ! i))"
      "slot_compatible h (domain (S ! i) ! j)"
      unfolding index_sound_def by blast+
    then show "i < length S \<and> j < length (domain (S ! i)) \<and>
            function_name h = get_prefix (domain (S ! i) ! j) \<and>
            length (args h) = length (get_args (domain (S ! i) ! j)) \<and>
            (\<forall>p < length (args h). is_Object (get_args (domain (S ! i) ! j) ! p) \<longrightarrow>
               args h ! p = get_args (domain (S ! i) ! j) ! p)"
      using slot_compatible_positional[of h "domain (S ! i) ! j"] by blast
  qed
  have 2: "\<forall>inst \<in> stream_instances self. inst \<in> zero_instances S \<or>
            (\<exists>s \<in> set S. \<exists>c. combo_instance s c = Inr (Some inst) \<and>
               length c = length (domain s) \<and>
               (\<forall>k < length (domain s). c ! k \<in> atoms self \<and>
                  function_name (c ! k) = get_prefix (domain s ! k) \<and>
                  (\<forall>p < length (args (c ! k)). is_Object (get_args (domain s ! k) ! p) \<longrightarrow>
                     args (c ! k) ! p = get_args (domain s ! k) ! p)))"
  proof
    fix inst assume "inst \<in> stream_instances self"
    with inv(3) st have a: "inst \<in> all_instances S (atoms self)"
      unfolding instances_sound_def by blast
    show "inst \<in> zero_instances S \<or>
            (\<exists>s \<in> set S. \<exists>c. combo_instance s c = Inr (Some inst) \<and>
               length c = length (domain s) \<and>
               (\<forall>k < length (domain s). c ! k \<in> atoms self \<and>
                  function_name (c ! k) = get_prefix (domain s ! k) \<and>
                  (\<forall>p < length (args (c ! k)). is_Object (get_args (domain s ! k) ! p) \<longrightarrow>
                     args (c ! k) ! p = get_args (domain s ! k) ! p)))"
    proof (cases "inst \<in> zero_instances S")
      case True
      then show ?thesis by simp
    next
      case False
      with a obtain s c where sc: "s \<in> set S" "c \<in> slot_combos (atoms self) s"
          "combo_instance s c = Inr (Some inst)"
        unfolding all_instances_def derived_def by blast
      from sc(2) have len: "length c = length (domain s)"
        and el: "\<And>k. k < length (domain s) \<Longrightarrow> c ! k \<in> atoms self \<and> slot_compatible (c ! k) (domain s ! k)"
        unfolding in_slot_combos_iff by blast+
      have "\<forall>k < length (domain s). c ! k \<in> atoms self \<and>
                  function_name (c ! k) = get_prefix (domain s ! k) \<and>
                  (\<forall>p < length (args (c ! k)). is_Object (get_args (domain s ! k) ! p) \<longrightarrow>
                     args (c ! k) ! p = get_args (domain s ! k) ! p)"
      proof (intro allI, rule impI)
        fix k assume "k < length (domain s)"
        from el[OF this] show "c ! k \<in> atoms self \<and>
                  function_name (c ! k) = get_prefix (domain s ! k) \<and>
                  (\<forall>p < length (args (c ! k)). is_Object (get_args (domain s ! k) ! p) \<longrightarrow>
                     args (c ! k) ! p = get_args (domain s ! k) ! p)"
          using slot_compatible_positional[of "c ! k" "domain s ! k"] by blast
      qed
      with sc(1,3) len show ?thesis by blast
    qed
  qed
  from inv(2) have 3: "set (stream_queue self) = stream_instances self"
    unfolding queue_ok_def by simp
  from 1 2 3 show ?thesis by (intro conjI)
qed

theorem constants_enforced_witness:
  "atoms_from_domain (fst (add_atoms
      (add_zero_input (empty_instantiator
         [\<lparr>name = ''s'', inputs = [''?x''], domain = [Fact ''On'' [Param ''?x'', Object ''table1'']]\<rparr>])
         [\<lparr>name = ''s'', inputs = [''?x''], domain = [Fact ''On'' [Param ''?x'', Object ''table1'']]\<rparr>])
      [Atom (Head ''On'' [Object ''a'', Object ''table2'']),
       Atom (Head ''On'' [Object ''b'', Object ''table1''])])) (0, 0)
     = [Head ''On'' [Object ''b'', Object ''table1'']] \<and>
   stream_queue (fst (add_atoms
      (add_zero_input (empty_instantiator
         [\<lparr>name = ''s'', inputs = [''?x''], domain = [Fact ''On'' [Param ''?x'', Object ''table1'']]\<rparr>])
         [\<lparr>name = ''s'', inputs = [''?x''], domain = [Fact ''On'' [Param ''?x'', Object ''table1'']]\<rparr>])
      [Atom (Head ''On'' [Object ''a'', Object ''table2'']),
       Atom (Head ''On'' [Object ''b'', Object ''table1''])]))
     = [(\<lparr>name = ''s'', inputs = [''?x''], domain = [Fact ''On'' [Param ''?x'', Object ''table1'']]\<rparr>,
         [Object ''b''])] \<and>
   stream_instances (fst (add_atoms
      (add_zero_input (empty_instantiator
         [\<lparr>name = ''s'', inputs = [''?x''], domain = [Fact ''On'' [Param ''?x'', Object ''table1'']]\<rparr>])
         [\<lparr>name = ''s'', inputs = [''?x''], domain = [Fact ''On'' [Param ''?x'', Object ''table1'']]\<rparr>])
      [Atom (Head ''On'' [Object ''a'', Object ''table2'']),
       Atom (Head ''On'' [Object ''b'', Object ''table1''])]))
     = {(\<lparr>name = ''s'', inputs = [''?x''], domain = [Fact ''On'' [Param ''?x'', Object ''table1'']]\<rparr>,
         [Object ''b''])}"
proof -
  let ?s = "\<lparr>name = ''s'', inputs = [''?x''], domain = [Fact ''On'' [Param ''?x'', Object ''table1'']]\<rparr>"
  let ?st = "add_zero_input (empty_instantiator [?s]) [?s]"
  let ?xs = "[Atom (Head ''On'' [Object ''a'', Object ''table2'']),
       Atom (Head ''On'' [Object ''b'', Object ''table1''])]"
  have e: "atoms_from_domain (fst (add_atoms ?st ?xs)) (0, 0) = [Head ''On'' [Object ''b'', Object ''table1'']] \<and>
           stream_queue (fst (add_atoms ?st ?xs)) = [(?s, [Object ''b''])]"
    by (simp add: engine_eval)
  have "add_atoms ?st ?xs = (fst (add_atoms ?st ?xs), snd (add_atoms ?st ?xs))" by simp
  from constants_enforced[OF this]
  have "set (stream_queue (fst (add_atoms ?st ?xs))) = stream_instances (fst (add_atoms ?st ?xs))"
    by blast
  with e have "stream_instances (fst (add_atoms ?st ?xs)) = {(?s, [Object ''b''])}" by simp
  with e show ?thesis by blast
qed

text \<open>
  C6, as stated, fails for a ground atom whose predicate matches a declared domain fact
  with another arity: with the stream \<open>s1\<close> of domain \<open>[Obj(?x)]\<close>, submitting
  \<open>Obj(a, b)\<close> to the fresh engine records the head in the known set and then raises
  the assertion of \<open>safe_zip\<close>.
\<close>

theorem add_atom_arity_counterexample:
  "is_atom (Atom (Head ''Obj'' [Object ''a'', Object ''b''])) \<and>
   add_atom (add_zero_input (empty_instantiator
        [\<lparr>name = ''s1'', inputs = [''?x''], domain = [Fact ''Obj'' [Param ''?x'']]\<rparr>])
        [\<lparr>name = ''s1'', inputs = [''?x''], domain = [Fact ''Obj'' [Param ''?x'']]\<rparr>])
      (Atom (Head ''Obj'' [Object ''a'', Object ''b''])) =
   (\<lparr>streams = [\<lparr>name = ''s1'', inputs = [''?x''], domain = [Fact ''Obj'' [Param ''?x'']]\<rparr>],
     stream_instances = {}, stream_queue = [],
     atoms = {Head ''Obj'' [Object ''a'', Object ''b'']},
     atoms_from_domain = (\<lambda>_. [])\<rparr>, Inl AssertionError)"
  by (simp add: engine_eval)

text \<open>
  C6, amended: an input that \<open>is_atom\<close> rejects (not fully ground) is a no-op that
  returns false and raises nothing. An accepted atom with a new head is never reported
  as a no-op, whatever its arity: its head joins the known set and the call does not
  return false; where some declared domain fact has its predicate with another arity,
  the call ends with an exception. At such a slot the loop body itself raises the
  length assertion of \<open>safe_zip\<close> and leaves the state as it found it (an earlier
  slot of the same call may have raised before that slot is reached).
\<close>

theorem add_atom_rejects_non_atoms:
  "(\<not> is_atom a \<longrightarrow> add_atom self a = (self, Inr False)) \<and>
   (is_atom a \<and> head a \<notin> atoms self \<longrightarrow>
      head a \<in> atoms (fst (add_atom self a)) \<and> snd (add_atom self a) \<noteq> Inr False \<and>
      (\<not> arity_ok (streams self) (head a) \<longrightarrow> (\<exists>e. snd (add_atom self a) = Inl e))) \<and>
   (function_name h = get_prefix df \<and> length (args h) \<noteq> length (get_args df) \<longrightarrow>
      add_atom_slot st h i s j df = (st, Inl AssertionError))"
proof (intro conjI impI)
  assume "\<not> is_atom a"
  then show "add_atom self a = (self, Inr False)" using add_atom_noop by blast
next
  assume n: "is_atom a \<and> head a \<notin> atoms self"
  have p: "add_atom self a = (fst (add_atom self a), snd (add_atom self a))" by simp
  from add_atom_frame[OF p] n show "head a \<in> atoms (fst (add_atom self a))" by simp
  from add_atom_frame[OF p] n show nf: "snd (add_atom self a) \<noteq> Inr False" by simp
  assume na: "\<not> arity_ok (streams self) (head a)"
  show "\<exists>e. snd (add_atom self a) = Inl e"
  proof (cases "snd (add_atom self a)")
    case (Inl e)
    then show ?thesis by blast
  next
    case (Inr b)
    with nf have "snd (add_atom self a) = Inr True" by (cases b) simp_all
    with p have "add_atom self a = (fst (add_atom self a), Inr True)" by simp
    from add_atom_arity[OF this] na show ?thesis by simp
  qed
next
  assume "function_name h = get_prefix df \<and> length (args h) \<noteq> length (get_args df)"
  then show "add_atom_slot st h i s j df = (st, Inl AssertionError)"
    using add_atom_slot_raise by blast
qed

theorem add_atom_rejects_non_atoms_witness:
  "\<not> is_atom (Atom (Head ''Obj'' [Param ''?y''])) \<and>
   add_atom (add_zero_input (empty_instantiator
        [\<lparr>name = ''s1'', inputs = [''?x''], domain = [Fact ''Obj'' [Param ''?x'']]\<rparr>])
        [\<lparr>name = ''s1'', inputs = [''?x''], domain = [Fact ''Obj'' [Param ''?x'']]\<rparr>])
      (Atom (Head ''Obj'' [Param ''?y''])) =
   (add_zero_input (empty_instantiator
        [\<lparr>name = ''s1'', inputs = [''?x''], domain = [Fact ''Obj'' [Param ''?x'']]\<rparr>])
        [\<lparr>name = ''s1'', inputs = [''?x''], domain = [Fact ''Obj'' [Param ''?x'']]\<rparr>], Inr False) \<and>
   is_atom (Atom (Head ''Obj'' [Object ''a'', Object ''b''])) \<and>
   (\<exists>e. snd (add_atom (add_zero_input (empty_instantiator
        [\<lparr>name = ''s1'', inputs = [''?x''], domain = [Fact ''Obj'' [Param ''?x'']]\<rparr>])
        [\<lparr>name = ''s1'', inputs = [''?x''], domain = [Fact ''Obj'' [Param ''?x'']]\<rparr>])
      (Atom (Head ''Obj'' [Object ''a'', Object ''b'']))) = Inl e) \<and>
   add_atom_slot (empty_instantiator []) (Head ''Obj'' [Object ''a'', Object ''b'']) 0
      \<lparr>name = ''s1'', inputs = [''?x''], domain = [Fact ''Obj'' [Param ''?x'']]\<rparr> 0
      (Fact ''Obj'' [Param ''?x'']) = (empty_instantiator [], Inl AssertionError) \<and>
   snd (add_atom (add_zero_input (empty_instantiator
        [\<lparr>name = ''sk'', inputs = [''?z''], domain = [Fact ''Obj'' [Param ''?x'']]\<rparr>,
         \<lparr>name = ''s2'', inputs = [''?x''], domain = [Fact ''Obj'' [Param ''?x'', Param ''?y'']]\<rparr>])
        [\<lparr>name = ''sk'', inputs = [''?z''], domain = [Fact ''Obj'' [Param ''?x'']]\<rparr>,
         \<lparr>name = ''s2'', inputs = [''?x''], domain = [Fact ''Obj'' [Param ''?x'', Param ''?y'']]\<rparr>])
      (Atom (Head ''Obj'' [Object ''a'']))) = Inl KeyError"
proof -
  let ?S = "\<lparr>name = ''s1'', inputs = [''?x''], domain = [Fact ''Obj'' [Param ''?x'']]\<rparr>"
  let ?st = "add_zero_input (empty_instantiator [?S]) [?S]"
  let ?A = "Atom (Head ''Obj'' [Param ''?y''])"
  let ?B = "Atom (Head ''Obj'' [Object ''a'', Object ''b''])"
  have 1: "\<not> is_atom ?A" by (simp add: is_atom_def)
  with add_atom_rejects_non_atoms[of ?A ?st] have 2: "add_atom ?st ?A = (?st, Inr False)" by blast
  have 3: "is_atom ?B" by (simp add: is_atom_def)
  have 4: "head ?B \<notin> atoms ?st" by (simp add: engine_eval)
  have 5: "\<not> arity_ok (streams ?st) (head ?B)" by (simp add: engine_eval arity_ok_def)
  from add_atom_rejects_non_atoms[of ?B ?st] 3 4 5
  have 6: "\<exists>e. snd (add_atom ?st ?B) = Inl e" by blast
  have 7: "function_name (head ?B) = get_prefix (Fact ''Obj'' [Param ''?x'']) \<and>
           length (args (head ?B)) \<noteq> length (get_args (Fact ''Obj'' [Param ''?x'']))" by simp
  from add_atom_rejects_non_atoms[of ?A ?st "head ?B" "Fact ''Obj'' [Param ''?x'']" "empty_instantiator []" 0 ?S 0] 7
  have 8: "add_atom_slot (empty_instantiator []) (head ?B) 0 ?S 0 (Fact ''Obj'' [Param ''?x''])
           = (empty_instantiator [], Inl AssertionError)" by blast
  have 9: "snd (add_atom (add_zero_input (empty_instantiator
        [\<lparr>name = ''sk'', inputs = [''?z''], domain = [Fact ''Obj'' [Param ''?x'']]\<rparr>,
         \<lparr>name = ''s2'', inputs = [''?x''], domain = [Fact ''Obj'' [Param ''?x'', Param ''?y'']]\<rparr>])
        [\<lparr>name = ''sk'', inputs = [''?z''], domain = [Fact ''Obj'' [Param ''?x'']]\<rparr>,
         \<lparr>name = ''s2'', inputs = [''?x''], domain = [Fact ''Obj'' [Param ''?x'', Param ''?y'']]\<rparr>])
      (Atom (Head ''Obj'' [Object ''a'']))) = Inl KeyError"
    by (simp add: engine_eval)
  from 1 2 3 6 8 9 show ?thesis by simp
qed

text \<open>
  C7: a stream declared without inputs has exactly one instance in the ready queue,
  the one with the empty input tuple. It is there after the first loop of the
  constructor, before any atom is processed, it is the only one after the constructor
  has submitted the initial evaluations, and no later sequence of \<open>add_atom\<close> calls
  (whether it ends normally or raises) enqueues a second one.
\<close>

theorem zero_input_enqueued_once:
  assumes "s \<in> set S" and "inputs s = []"
    and "Instantiator evaluations S = Inr self0"
    and "add_atoms self0 xs = (self, r)"
  shows "filter (\<lambda>inst. fst inst = s) (stream_queue (add_zero_input (empty_instantiator S) S))
           = [get_instance s []] \<and>
         filter (\<lambda>inst. fst inst = s) (stream_queue self0) = [get_instance s []] \<and>
         filter (\<lambda>inst. fst inst = s) (stream_queue self) = [get_instance s []]"
proof -
  let ?st = "add_zero_input (empty_instantiator S) S"
  have 1: "filter (\<lambda>inst. fst inst = s) (stream_queue ?st) = [get_instance s []]"
    by (rule engine_inv_zero_filter[OF initial_engine_inv]) (use assms(1,2) in \<open>simp_all add: initial_state\<close>)
  from assms(3) have "add_atoms ?st evaluations = (self0, Inr ())" by (simp add: Instantiator_Inr)
  from reachable_engine_inv[OF this] have i0: "engine_inv self0" "streams self0 = S" by simp_all
  have 2: "filter (\<lambda>inst. fst inst = s) (stream_queue self0) = [get_instance s []]"
    by (rule engine_inv_zero_filter[OF i0(1)]) (use assms(1,2) i0(2) in simp_all)
  from add_atoms_engine_inv[OF assms(4) i0(1)] i0(2) have i1: "engine_inv self" "streams self = S"
    by simp_all
  have 3: "filter (\<lambda>inst. fst inst = s) (stream_queue self) = [get_instance s []]"
    by (rule engine_inv_zero_filter[OF i1(1)]) (use assms(1,2) i1(2) in simp_all)
  from 1 2 3 show ?thesis by (intro conjI)
qed

theorem zero_input_enqueued_once_witness:
  "filter (\<lambda>inst. fst inst = \<lparr>name = ''s0'', inputs = [], domain = [Fact ''Obj'' [Param ''?x'']]\<rparr>)
     (stream_queue (fst (add_atoms
        (add_zero_input (empty_instantiator [\<lparr>name = ''s0'', inputs = [], domain = [Fact ''Obj'' [Param ''?x'']]\<rparr>])
           [\<lparr>name = ''s0'', inputs = [], domain = [Fact ''Obj'' [Param ''?x'']]\<rparr>])
        [Atom (Head ''Obj'' [Object ''a'']), Atom (Head ''Obj'' [Object ''b''])])))
   = [get_instance \<lparr>name = ''s0'', inputs = [], domain = [Fact ''Obj'' [Param ''?x'']]\<rparr> []]"
proof -
  let ?s = "\<lparr>name = ''s0'', inputs = [], domain = [Fact ''Obj'' [Param ''?x'']]\<rparr>"
  let ?st = "add_zero_input (empty_instantiator [?s]) [?s]"
  let ?xs = "[Atom (Head ''Obj'' [Object ''a'']), Atom (Head ''Obj'' [Object ''b''])]"
  have a: "?s \<in> set [?s]" by simp
  have b: "inputs ?s = []" by simp
  have c: "Instantiator [] [?s] = Inr ?st" by (simp add: Instantiator_def)
  have d: "add_atoms ?st ?xs = (fst (add_atoms ?st ?xs), snd (add_atoms ?st ?xs))" by simp
  from zero_input_enqueued_once[OF a b c d] show ?thesis by blast
qed

text \<open>
  C8: unification is all-or-nothing. For two equal-length sequences whose atoms match
  position by position (same predicate and arity), \<open>get_mapping\<close> returns failure
  or one mapping that binds every argument of every domain fact, and it returns failure
  whenever two positions would bind the same domain-side argument to different objects.
\<close>

theorem get_mapping_all_or_nothing:
  assumes "matched atoms1 atoms2"
  shows "(get_mapping atoms1 atoms2 = Inr None \<or>
          (\<exists>m. get_mapping atoms1 atoms2 = Inr (Some m) \<and>
               (\<forall>a \<in> set atoms1. set (args a) \<subseteq> dom m))) \<and>
         (binding_conflict atoms1 atoms2 \<longrightarrow> get_mapping atoms1 atoms2 = Inr None)"
proof (cases "single_valued (set (arg_pairs atoms1 atoms2))")
  case True
  then have g: "get_mapping atoms1 atoms2 = Inr (Some (map_of (arg_pairs atoms1 atoms2)))"
    using get_mapping_char[OF assms] by simp
  have d: "\<forall>a \<in> set atoms1. set (args a) \<subseteq> dom (map_of (arg_pairs atoms1 atoms2))"
    unfolding dom_map_of_arg_pairs[OF assms] by blast
  from True have "\<not> binding_conflict atoms1 atoms2"
    unfolding single_valued_arg_pairs[OF assms] .
  with g d show ?thesis by blast
next
  case False
  then have "get_mapping atoms1 atoms2 = Inr None"
    using get_mapping_char[OF assms] by simp
  then show ?thesis by simp
qed

theorem get_mapping_all_or_nothing_witness:
  "matched [Head ''Pred'' [Param ''?x''], Head ''Pred2'' [Param ''?x'', Param ''?y'']]
           [Head ''Pred'' [Object ''a''], Head ''Pred2'' [Object ''b'', Object ''c'']] \<and>
   get_mapping [Head ''Pred'' [Param ''?x''], Head ''Pred2'' [Param ''?x'', Param ''?y'']]
               [Head ''Pred'' [Object ''a''], Head ''Pred2'' [Object ''b'', Object ''c'']] = Inr None"
proof -
  let ?A = "[Head ''Pred'' [Param ''?x''], Head ''Pred2'' [Param ''?x'', Param ''?y'']]"
  let ?B = "[Head ''Pred'' [Object ''a''], Head ''Pred2'' [Object ''b'', Object ''c'']]"
  have m: "matched ?A ?B" by (simp add: matched_def)
  have c: "binding_conflict ?A ?B"
    unfolding binding_conflict_def
    by (intro exI[of _ 0] exI[of _ 0] exI[of _ 1] exI[of _ 0]) simp
  from get_mapping_all_or_nothing[OF m] c have "get_mapping ?A ?B = Inr None" by blast
  with m show ?thesis by blast
qed

text \<open>
  C9: inside \<open>get_mapping\<close> a literal Object constant \<open>c\<close> on the domain side
  is a key like any parameter. Where the candidate holds a different object at that
  position, unification records the binding of \<open>c\<close> to it and succeeds as long as no
  two positions conflict; the same pair of atoms is dropped by the filter of
  \<open>add_atom\<close>, which leaves the state untouched.
\<close>

theorem get_mapping_constant_like_parameter:
  assumes "matched atoms1 atoms2"
    and "i < length atoms1" and "p < length (args (atoms1 ! i))"
    and "args (atoms1 ! i) ! p = Object c" and "args (atoms2 ! i) ! p = Object ob" and "c \<noteq> ob"
    and "\<not> binding_conflict atoms1 atoms2"
  shows "(\<exists>m. get_mapping atoms1 atoms2 = Inr (Some m) \<and> m (Object c) = Some (Object ob)) \<and>
         add_atom_slot self (atoms2 ! i) si s sj (Fact (function_name (atoms1 ! i)) (args (atoms1 ! i)))
           = (self, Inr ())"
proof -
  have sv: "single_valued (set (arg_pairs atoms1 atoms2))"
    using assms(7) single_valued_arg_pairs[OF assms(1)] by simp
  then have g: "get_mapping atoms1 atoms2 = Inr (Some (map_of (arg_pairs atoms1 atoms2)))"
    using get_mapping_char[OF assms(1)] by simp
  have "map_of (arg_pairs atoms1 atoms2) (Object c) = Some (Object ob)"
    using map_of_arg_pairs[OF assms(1) sv assms(2,3)] assms(4,5) by simp
  with g have 1: "\<exists>m. get_mapping atoms1 atoms2 = Inr (Some m) \<and> m (Object c) = Some (Object ob)"
    by simp
  have ar: "length (args (atoms2 ! i)) = length (args (atoms1 ! i))"
    using matched_arity[OF assms(1,2)] by simp
  have 2: "add_atom_slot self (atoms2 ! i) si s sj (Fact (function_name (atoms1 ! i)) (args (atoms1 ! i)))
           = (self, Inr ())"
    by (rule add_atom_slot_filtered[where p = p]) (use assms(3,4,5,6) ar in simp_all)
  from 1 2 show ?thesis by (rule conjI)
qed

theorem get_mapping_constant_like_parameter_witness:
  "(\<exists>m. get_mapping [Head ''On'' [Param ''?x'', Object ''table1'']]
                    [Head ''On'' [Object ''a'', Object ''table2'']] = Inr (Some m) \<and>
        m (Object ''table1'') = Some (Object ''table2'')) \<and>
   add_atom_slot (empty_instantiator []) (Head ''On'' [Object ''a'', Object ''table2'']) 0
      \<lparr>name = ''s'', inputs = [''?x''], domain = [Fact ''On'' [Param ''?x'', Object ''table1'']]\<rparr> 0
      (Fact ''On'' [Param ''?x'', Object ''table1'']) = (empty_instantiator [], Inr ())"
proof -
  let ?A = "[Head ''On'' [Param ''?x'', Object ''table1'']]"
  let ?B = "[Head ''On'' [Object ''a'', Object ''table2'']]"
  have m: "matched ?A ?B" by (simp add: matched_def)
  have "\<not> binding_conflict ?A ?B"
    unfolding binding_conflict_def by (auto simp: nth_Cons split: nat.splits)
  from get_mapping_constant_like_parameter[of ?A ?B 0 1 "''table1''" "''table2''", OF m _ _ _ _ _ this]
  show ?thesis by simp
qed

text \<open>
  C10: the constructor enqueues the instances of the streams without inputs before it
  processes any atom. The queue of the constructed engine is the queue of these
  instances followed by the instances found from the initial evaluations, and every
  one of the latter belongs to a stream with inputs.
\<close>

theorem zero_input_first:
  assumes "Instantiator evaluations S = Inr self"
  shows "\<exists>rest. stream_queue self = stream_queue (add_zero_input (empty_instantiator S) S) @ rest \<and>
           (\<forall>s \<in> set S. inputs s = [] \<longrightarrow>
              get_instance s [] \<in> set (stream_queue (add_zero_input (empty_instantiator S) S))) \<and>
           (\<forall>inst \<in> set (stream_queue (add_zero_input (empty_instantiator S) S)).
              inputs (fst inst) = []) \<and>
           (\<forall>inst \<in> set rest. inputs (fst inst) \<noteq> [])"
proof -
  let ?st = "add_zero_input (empty_instantiator S) S"
  from assms have run: "add_atoms ?st evaluations = (self, Inr ())" by (simp add: Instantiator_Inr)
  from reachable_engine_inv[OF run] have inv: "engine_inv self" "streams self = S" "queue_ext ?st self"
    by simp_all
  from inv(3) obtain rest where r: "stream_queue self = stream_queue ?st @ rest"
      "set rest \<inter> stream_instances ?st = {}" "stream_instances self = stream_instances ?st \<union> set rest"
    unfolding queue_ext_def by blast
  have z: "set (stream_queue ?st) = zero_instances S"
    using initial_queue_ok[of S] unfolding queue_ok_def by (simp add: initial_state)
  have "inputs (fst inst) \<noteq> []" if "inst \<in> set rest" for inst
  proof
    assume e: "inputs (fst inst) = []"
    from that r(3) have "inst \<in> stream_instances self" by simp
    with inv(1,2) have "inst \<in> all_instances S (atoms self)"
      unfolding engine_inv_def instances_sound_def by blast
    from all_instances_zero[OF this e] have "inst \<in> stream_instances ?st" by (simp add: initial_state)
    with that r(2) show False by blast
  qed
  then have 3: "\<forall>inst \<in> set rest. inputs (fst inst) \<noteq> []" by blast
  have 1: "\<forall>s \<in> set S. inputs s = [] \<longrightarrow> get_instance s [] \<in> set (stream_queue ?st)"
    unfolding z zero_instances_def by blast
  have 2: "\<forall>inst \<in> set (stream_queue ?st). inputs (fst inst) = []"
    unfolding z zero_instances_def by (auto simp: get_instance_def)
  from r(1) 1 2 3 show ?thesis by blast
qed

theorem zero_input_first_witness:
  "stream_queue (fst (add_atoms
        (add_zero_input (empty_instantiator
           [\<lparr>name = ''s1'', inputs = [''?x''], domain = [Fact ''Obj'' [Param ''?x'']]\<rparr>,
            \<lparr>name = ''s0'', inputs = [], domain = []\<rparr>])
           [\<lparr>name = ''s1'', inputs = [''?x''], domain = [Fact ''Obj'' [Param ''?x'']]\<rparr>,
            \<lparr>name = ''s0'', inputs = [], domain = []\<rparr>])
        [Atom (Head ''Obj'' [Object ''a''])]))
   = [(\<lparr>name = ''s0'', inputs = [], domain = []\<rparr>, []),
      (\<lparr>name = ''s1'', inputs = [''?x''], domain = [Fact ''Obj'' [Param ''?x'']]\<rparr>, [Object ''a''])] \<and>
   (\<exists>rest. stream_queue (fst (add_atoms
        (add_zero_input (empty_instantiator
           [\<lparr>name = ''s1'', inputs = [''?x''], domain = [Fact ''Obj'' [Param ''?x'']]\<rparr>,
            \<lparr>name = ''s0'', inputs = [], domain = []\<rparr>])
           [\<lparr>name = ''s1'', inputs = [''?x''], domain = [Fact ''Obj'' [Param ''?x'']]\<rparr>,
            \<lparr>name = ''s0'', inputs = [], domain = []\<rparr>])
        [Atom (Head ''Obj'' [Object ''a''])])) =
      stream_queue (add_zero_input (empty_instantiator
           [\<lparr>name = ''s1'', inputs = [''?x''], domain = [Fact ''Obj'' [Param ''?x'']]\<rparr>,
            \<lparr>name = ''s0'', inputs = [], domain = []\<rparr>])
           [\<lparr>name = ''s1'', inputs = [''?x''], domain = [Fact ''Obj'' [Param ''?x'']]\<rparr>,
            \<lparr>name = ''s0'', inputs = [], domain = []\<rparr>]) @ rest)"
proof -
  let ?s1 = "\<lparr>name = ''s1'', inputs = [''?x''], domain = [Fact ''Obj'' [Param ''?x'']]\<rparr>"
  let ?s0 = "\<lparr>name = ''s0'', inputs = [], domain = []\<rparr>"
  let ?S = "[?s1, ?s0]"
  let ?st = "add_zero_input (empty_instantiator ?S) ?S"
  let ?xs = "[Atom (Head ''Obj'' [Object ''a''])]"
  have e: "add_atoms ?st ?xs = (fst (add_atoms ?st ?xs), Inr ()) \<and>
           stream_queue (fst (add_atoms ?st ?xs)) = [(?s0, []), (?s1, [Object ''a''])]"
    by (simp add: engine_eval)
  then have "Instantiator ?xs ?S = Inr (fst (add_atoms ?st ?xs))" by (simp add: Instantiator_Inr)
  from zero_input_first[OF this] e show ?thesis by blast
qed

end
